theory Spec2Isabelle
  imports Main "HOL-Library.Word"
begin

section \<open>Program values, debug information and the value-flow graph\<close>

text \<open>
  The tool \<^verbatim>\<open>dataflow-sa\<close> works on pointers into three external object universes: LLVM
  values, debug-information nodes and nodes of SVF's value-flow graph. A pointer is
  modelled by the data the tool reads through it; a pointer that may be null is an
  \<open>option\<close>. Graph nodes and values are identified by a number (their address).
\<close>

type_synonym node = nat
type_synonym value_id = nat

text \<open>
  The two annotation kinds come from the header \<^verbatim>\<open>fuzzalloc/Metadata.h\<close>
  (\<^verbatim>\<open>kFuzzallocTaggedAllocMD\<close>, \<^verbatim>\<open>kFuzzallocInstrumentedDerefMD\<close>); only their
  being two different kinds is used.
\<close>

datatype MDKind = FuzzallocTaggedAllocMD | FuzzallocInstrumentedDerefMD | OtherMD string

text \<open>
  A \<^verbatim>\<open>DILocation\<close> as read by \<^verbatim>\<open>toJSON(const Use &)\<close>: \<^verbatim>\<open>getFile()->getName()\<close>,
  \<^verbatim>\<open>getDISubprogram(getScope())->getName()\<close> and \<^verbatim>\<open>getLine()\<close>.
\<close>

record DILocation =
  locFile :: string
  locFunc :: string
  locLine :: nat

text \<open>
  A \<^verbatim>\<open>DIVariable\<close> as read by the two \<^verbatim>\<open>toJSON\<close> functions. \<open>varLocal\<close> is
  \<open>Some f\<close> for a \<^verbatim>\<open>DILocalVariable\<close> whose scope lies in the subprogram named \<open>f\<close>, and
  \<open>None\<close> for any other variable (\<^verbatim>\<open>dyn_cast_or_null<DILocalVariable>\<close> fails).
\<close>

record DIVariable =
  varName :: string
  varFile :: string
  varLine :: nat
  varLocal :: "string option"

text \<open>
  Instructions: the opcode (a load and a store carry their pointer operand), the attached
  metadata kinds, the name of the containing basic block (\<^verbatim>\<open>getParent()->getName()\<close>) and
  the debug location.
\<close>

datatype Opcode = LoadInst value_id | StoreInst value_id | CallInst | OtherInst

record Instruction =
  opcode :: Opcode
  metadata :: "MDKind list"
  parentName :: string
  debugLoc :: "DILocation option"

text \<open>
  A \<^verbatim>\<open>Value\<close>: its identity, the result of \<^verbatim>\<open>dyn_cast<Instruction>\<close>, and the text that
  \<^verbatim>\<open>print(SS, /*IsForDebug=*/true)\<close> writes.
\<close>

record Value =
  ident :: value_id
  asInstruction :: "Instruction option"
  printed :: string

text \<open>
  A \<^verbatim>\<open>VFGNode\<close>: \<^verbatim>\<open>getValue()\<close> and the destination nodes of \<^verbatim>\<open>getOutEdges()\<close>, in
  iteration order. The graph maps every node pointer to its node object.
\<close>

record VFGNode =
  val :: "Value option"
  outEdges :: "node list"

type_synonym VFG = "node \<Rightarrow> VFGNode"

definition getValue :: "VFG \<Rightarrow> node \<Rightarrow> Value option" where
  "getValue g n = val (g n)"

definition getOutEdges :: "VFG \<Rightarrow> node \<Rightarrow> node list" where
  "getOutEdges g n = outEdges (g n)"

text \<open>The dataflow edges of the graph as a relation.\<close>

definition edges :: "VFG \<Rightarrow> (node \<times> node) set" where
  "edges g = {(a, b). b \<in> set (getOutEdges g a)}"

text \<open>
  The result of the variable recovery pass, \<^verbatim>\<open>SrcVars\<close>: \<^verbatim>\<open>lookup\<close> gives the variable
  recorded for a value, or null.
\<close>

type_synonym SrcVars = "value_id \<rightharpoonup> DIVariable"

definition lookup :: "SrcVars \<Rightarrow> Value option \<Rightarrow> DIVariable option" where
  "lookup sv V = (case V of None \<Rightarrow> None | Some v \<Rightarrow> sv (ident v))"

section \<open>Failures\<close>

text \<open>
  \<open>NDEBUG\<close> is the build setting of the same name. \<^verbatim>\<open>assert\<close> checks its condition only
  when it is off, and so do \<^verbatim>\<open>cast<>\<close> and the message of \<^verbatim>\<open>llvm_unreachable\<close>; when it
  is on, \<^verbatim>\<open>assert\<close> expands to nothing and a reached \<^verbatim>\<open>llvm_unreachable\<close> has no defined
  behaviour. The statement \<^verbatim>\<open>(void)isTaggedAlloc;\<close> in \<^verbatim>\<open>main\<close> keeps that helper
  referenced in such a build.
\<close>

datatype error =
    AssertionFailed string
  | UnreachableExecuted string
  | UndefinedBehaviour
  | NonTermination

definition llvm_unreachable :: "bool \<Rightarrow> string \<Rightarrow> error" where
  "llvm_unreachable NDEBUG msg = (if NDEBUG then UndefinedBehaviour else UnreachableExecuted msg)"

definition failed_assert :: "bool \<Rightarrow> string \<Rightarrow> error" where
  "failed_assert NDEBUG msg = (if NDEBUG then UndefinedBehaviour else AssertionFailed msg)"

section \<open>Definitions and uses\<close>

record Def =
  Node :: node
  Val :: "Value option"
  Var :: "DIVariable option"

record Use =
  Node :: node
  Val :: "Value option"
  Var :: "DIVariable option"
  Loc :: "DILocation option"

text \<open>The constructors: \<^verbatim>\<open>Val(Node->getValue())\<close>, and for a use
  \<^verbatim>\<open>Loc(cast<Instruction>(Val)->getDebugLoc())\<close>.\<close>

definition Def_ctor :: "VFG \<Rightarrow> node \<Rightarrow> DIVariable option \<Rightarrow> Def" where
  "Def_ctor g n v = \<lparr>Def.Node = n, Def.Val = getValue g n, Def.Var = v\<rparr>"

definition Use_ctor :: "bool \<Rightarrow> VFG \<Rightarrow> node \<Rightarrow> DIVariable option \<Rightarrow> error + Use" where
  "Use_ctor NDEBUG g n v =
     (case getValue g n of
        None \<Rightarrow> Inl (failed_assert NDEBUG ''cast<Ty>() argument of incompatible type!'')
      | Some x \<Rightarrow>
          (case asInstruction x of
             None \<Rightarrow> Inl (failed_assert NDEBUG ''cast<Ty>() argument of incompatible type!'')
           | Some i \<Rightarrow>
               Inr \<lparr>Use.Node = n, Use.Val = Some x, Use.Var = v, Use.Loc = debugLoc i\<rparr>))"

text \<open>\<^verbatim>\<open>operator==\<close> and \<^verbatim>\<open>std::hash\<close> of both records look at the node only. The hash
  of a node pointer, \<^verbatim>\<open>hash<const VFGNode *>\<close>, is a parameter.\<close>

definition Def_eq :: "Def \<Rightarrow> Def \<Rightarrow> bool" where
  "Def_eq a b = (Def.Node a = Def.Node b)"

definition Use_eq :: "Use \<Rightarrow> Use \<Rightarrow> bool" where
  "Use_eq a b = (Use.Node a = Use.Node b)"

definition hash_Def :: "(node \<Rightarrow> 64 word) \<Rightarrow> Def \<Rightarrow> 64 word" where
  "hash_Def h d = h (Def.Node d)"

definition hash_Use :: "(node \<Rightarrow> 64 word) \<Rightarrow> Use \<Rightarrow> 64 word" where
  "hash_Use h u = h (Use.Node u)"

section \<open>Node predicates\<close>

definition hasMetadata :: "Instruction \<Rightarrow> bool" where
  "hasMetadata I = (metadata I \<noteq> [])"

definition getMetadata :: "Instruction \<Rightarrow> MDKind \<Rightarrow> bool" where
  "getMetadata I k = (k \<in> set (metadata I))"

definition isTaggedAlloc :: "Value option \<Rightarrow> bool" where
  "isTaggedAlloc V =
     (case V of
        None \<Rightarrow> False
      | Some v \<Rightarrow>
          (case asInstruction v of
             Some I \<Rightarrow> hasMetadata I \<and> getMetadata I FuzzallocTaggedAllocMD
           | None \<Rightarrow> False))"

definition isInstrumentedDeref :: "Value option \<Rightarrow> bool" where
  "isInstrumentedDeref V =
     (case V of
        None \<Rightarrow> False
      | Some v \<Rightarrow>
          (case asInstruction v of
             Some I \<Rightarrow> hasMetadata I \<and> getMetadata I FuzzallocInstrumentedDerefMD
           | None \<Rightarrow> False))"

section \<open>The reachability engine\<close>

text \<open>
  SVF's \<^verbatim>\<open>FIFOWorkList\<close>: \<^verbatim>\<open>push\<close> appends at the back unless the element is already
  queued, \<^verbatim>\<open>pop\<close> takes from the front.
\<close>

definition push :: "node list \<Rightarrow> node \<Rightarrow> node list" where
  "push wl x = (if x \<in> set wl then wl else wl @ [x])"

text \<open>
  The inner loop over the out-edges of the popped node. The state is the work list and
  the visited set; the visited set is kept as the list of its elements in insertion
  order, and \<^verbatim>\<open>Visited.insert(Succ).second\<close> is true exactly when \<open>Succ\<close> is new.
\<close>

fun visitEdges :: "node list \<Rightarrow> node list \<times> node list \<Rightarrow> node list \<times> node list" where
  "visitEdges [] (wl, vis) = (wl, vis)"
| "visitEdges (s # ss) (wl, vis) =
     (if s \<in> set vis then visitEdges ss (wl, vis)
      else visitEdges ss (push wl s, vis @ [s]))"

text \<open>
  The \<^verbatim>\<open>while (!Worklist.empty())\<close> loop. It need not end on an infinite graph, so the
  result is an option. \<open>popped\<close> records the nodes returned by \<^verbatim>\<open>Worklist.pop()\<close>, in
  order; nothing is computed from it. The result is the visited set and that record.
\<close>

partial_function (option) traverse ::
  "VFG \<Rightarrow> node list \<Rightarrow> node list \<Rightarrow> node list \<Rightarrow> (node list \<times> node list) option" where
  "traverse g wl vis popped =
     (case wl of
        [] \<Rightarrow> Some (vis, popped)
      | n # rest \<Rightarrow>
          (case visitEdges (getOutEdges g n) (rest, vis) of
             (wl', vis') \<Rightarrow> traverse g wl' vis' (popped @ [n])))"

text \<open>\<^verbatim>\<open>Worklist.clear(); Visited.clear(); Worklist.push(Def.Node);\<close> and the loop.\<close>

definition reach :: "VFG \<Rightarrow> node \<Rightarrow> (node list \<times> node list) option" where
  "reach g root = traverse g (push [] root) [] []"

section \<open>The chain store\<close>

text \<open>
  \<^verbatim>\<open>DefUseChains\<close> is an unordered map from \<open>Def\<close> to an unordered set of \<open>Use\<close>, both
  keyed through the equalities above. It is kept as an association list in insertion
  order; \<^verbatim>\<open>emplace\<close> leaves a set that already holds an equal element as it is, and
  \<^verbatim>\<open>DefUseChains[Def]\<close> creates the entry when no equal key exists.
\<close>

type_synonym Chains = "(Def \<times> Use list) list"

definition emplace :: "Use list \<Rightarrow> Use \<Rightarrow> Use list" where
  "emplace us u = (if \<exists>u' \<in> set us. Use_eq u' u then us else us @ [u])"

fun chain_emplace :: "Chains \<Rightarrow> Def \<Rightarrow> Use \<Rightarrow> Chains" where
  "chain_emplace [] d u = [(d, emplace [] u)]"
| "chain_emplace ((d', us) # cs) d u =
     (if Def_eq d' d then (d', emplace us u) # cs else (d', us) # chain_emplace cs d u)"

text \<open>The uses stored for a definition (empty when there is no entry).\<close>

fun chain_find :: "Chains \<Rightarrow> Def \<Rightarrow> Use list" where
  "chain_find [] d = []"
| "chain_find ((d', us) # cs) d = (if Def_eq d' d then us else chain_find cs d)"

section \<open>Collecting uses\<close>

text \<open>Whether \<^verbatim>\<open>dyn_cast<LoadInst>\<close> or \<^verbatim>\<open>dyn_cast<StoreInst>\<close> succeeds on an
  instruction with this opcode.\<close>

fun isLoadOrStore :: "Opcode \<Rightarrow> bool" where
  "isLoadOrStore (LoadInst p) = True"
| "isLoadOrStore (StoreInst p) = True"
| "isLoadOrStore CallInst = False"
| "isLoadOrStore OtherInst = False"

text \<open>The lambda that yields the pointer operand: a use must be a load or store.\<close>

definition pointerOperand :: "bool \<Rightarrow> Value \<Rightarrow> error + value_id" where
  "pointerOperand NDEBUG UseV =
     (case asInstruction UseV of
        Some I \<Rightarrow>
          (case opcode I of
             LoadInst p \<Rightarrow> Inr p
           | StoreInst p \<Rightarrow> Inr p
           | _ \<Rightarrow> Inl (llvm_unreachable NDEBUG ''use must be a load or store''))
      | None \<Rightarrow> Inl (llvm_unreachable NDEBUG ''use must be a load or store''))"

text \<open>
  The loop \<^verbatim>\<open>for (const auto *Use : Visited)\<close> for the definition \<open>d\<close>; the state is the
  chain store and the counter \<^verbatim>\<open>NumUses\<close>. The visited set is walked in insertion order
  (the source's order is that of a hash set).
\<close>

fun useLoop ::
  "bool \<Rightarrow> SrcVars \<Rightarrow> VFG \<Rightarrow> Def \<Rightarrow> node list \<Rightarrow> Chains \<times> 32 word \<Rightarrow> error + Chains \<times> 32 word" where
  "useLoop NDEBUG sv g d [] st = Inr st"
| "useLoop NDEBUG sv g d (n # ns) (ch, NumUses) =
     (let UseV = getValue g n in
      if \<not> isInstrumentedDeref UseV then useLoop NDEBUG sv g d ns (ch, NumUses)
      else
        (case UseV of
           None \<Rightarrow> Inl UndefinedBehaviour
         | Some x \<Rightarrow>
             (case pointerOperand NDEBUG x of
                Inl e \<Rightarrow> Inl e
              | Inr V \<Rightarrow>
                  (case Use_ctor NDEBUG g n (sv V) of
                     Inl e \<Rightarrow> Inl e
                   | Inr u \<Rightarrow> useLoop NDEBUG sv g d ns (chain_emplace ch d u, NumUses + 1)))))"

text \<open>The body of \<^verbatim>\<open>for (const auto &Def : Defs)\<close>, and the loop itself.\<close>

definition processDef ::
  "bool \<Rightarrow> SrcVars \<Rightarrow> VFG \<Rightarrow> Def \<Rightarrow> Chains \<times> 32 word \<Rightarrow> error + Chains \<times> 32 word" where
  "processDef NDEBUG sv g d st =
     (case reach g (Def.Node d) of
        None \<Rightarrow> Inl NonTermination
      | Some (Visited, popped) \<Rightarrow> useLoop NDEBUG sv g d Visited st)"

fun collectUses ::
  "bool \<Rightarrow> SrcVars \<Rightarrow> VFG \<Rightarrow> Def list \<Rightarrow> Chains \<times> 32 word \<Rightarrow> error + Chains \<times> 32 word" where
  "collectUses NDEBUG sv g [] st = Inr st"
| "collectUses NDEBUG sv g (d # ds) st =
     (case processDef NDEBUG sv g d st of
        Inl e \<Rightarrow> Inl e
      | Inr st' \<Rightarrow> collectUses NDEBUG sv g ds st')"

section \<open>Rendering\<close>

text \<open>
  The part of \<^verbatim>\<open>llvm::json::Value\<close> that the tool builds: null, strings, numbers and
  arrays. An \<^verbatim>\<open>Optional\<close> becomes its content, or null when it is empty.
\<close>

datatype json = JNull | JString string | JNumber nat | JArray "json list"

definition json_opt_string :: "string option \<Rightarrow> json" where
  "json_opt_string x = (case x of None \<Rightarrow> JNull | Some s \<Rightarrow> JString s)"

definition json_opt_nat :: "nat option \<Rightarrow> json" where
  "json_opt_nat x = (case x of None \<Rightarrow> JNull | Some n \<Rightarrow> JNumber n)"

text \<open>
  The four lambdas of \<^verbatim>\<open>toJSON(const dataflow::Def &)\<close>. \<open>Val\<close> is dereferenced
  without a test: printing through a null pointer has no defined behaviour, and
  \<^verbatim>\<open>dyn_cast\<close> of a null pointer fails its assertion.
\<close>

definition Def_Name :: "Def \<Rightarrow> error + string" where
  "Def_Name d =
     (case Def.Var d of
        Some v \<Rightarrow> Inr (varName v)
      | None \<Rightarrow> (case Def.Val d of None \<Rightarrow> Inl UndefinedBehaviour | Some x \<Rightarrow> Inr (printed x)))"

definition Def_Filename :: "Def \<Rightarrow> string option" where
  "Def_Filename d = (case Def.Var d of Some v \<Rightarrow> Some (varFile v) | None \<Rightarrow> None)"

definition dyn_cast_or_null_DILocalVariable :: "DIVariable option \<Rightarrow> string option" where
  "dyn_cast_or_null_DILocalVariable V = (case V of None \<Rightarrow> None | Some v \<Rightarrow> varLocal v)"

definition blockName :: "bool \<Rightarrow> Value option \<Rightarrow> error + string option" where
  "blockName NDEBUG V =
     (case V of
        None \<Rightarrow> Inl (failed_assert NDEBUG ''dyn_cast on a non-existent value'')
      | Some x \<Rightarrow>
          (case asInstruction x of Some Inst \<Rightarrow> Inr (Some (parentName Inst)) | None \<Rightarrow> Inr None))"

definition Def_Func :: "bool \<Rightarrow> Def \<Rightarrow> error + string option" where
  "Def_Func NDEBUG d =
     (case dyn_cast_or_null_DILocalVariable (Def.Var d) of
        Some f \<Rightarrow> Inr (Some f)
      | None \<Rightarrow> blockName NDEBUG (Def.Val d))"

definition Def_Line :: "Def \<Rightarrow> nat option" where
  "Def_Line d = (case Def.Var d of Some v \<Rightarrow> Some (varLine v) | None \<Rightarrow> None)"

definition toJSON_Def :: "bool \<Rightarrow> Def \<Rightarrow> error + json" where
  "toJSON_Def NDEBUG d =
     (case Def_Name d of
        Inl e \<Rightarrow> Inl e
      | Inr Name \<Rightarrow>
          (let Filename = Def_Filename d in
           case Def_Func NDEBUG d of
             Inl e \<Rightarrow> Inl e
           | Inr Funct \<Rightarrow>
               (let Line = Def_Line d in
                Inr (JArray [JString Name,
                       JArray [json_opt_string Filename, json_opt_string Funct, json_opt_nat Line]]))))"

text \<open>The four lambdas of \<^verbatim>\<open>toJSON(const dataflow::Use &)\<close>, and its result, whose
  inner array starts with \<^verbatim>\<open>nullptr\<close>.\<close>

definition Use_Name :: "Use \<Rightarrow> error + string" where
  "Use_Name u =
     (case Use.Var u of
        Some v \<Rightarrow> Inr (varName v)
      | None \<Rightarrow> (case Use.Val u of None \<Rightarrow> Inl UndefinedBehaviour | Some x \<Rightarrow> Inr (printed x)))"

definition Use_Filename :: "Use \<Rightarrow> string option" where
  "Use_Filename u = (case Use.Loc u of Some l \<Rightarrow> Some (locFile l) | None \<Rightarrow> None)"

definition Use_Func :: "bool \<Rightarrow> Use \<Rightarrow> error + string option" where
  "Use_Func NDEBUG u =
     (case Use.Loc u of
        Some l \<Rightarrow> Inr (Some (locFunc l))
      | None \<Rightarrow> blockName NDEBUG (Use.Val u))"

definition Use_Line :: "Use \<Rightarrow> nat option" where
  "Use_Line u = (case Use.Loc u of Some l \<Rightarrow> Some (locLine l) | None \<Rightarrow> None)"

definition toJSON_Use :: "bool \<Rightarrow> Use \<Rightarrow> error + json" where
  "toJSON_Use NDEBUG u =
     (case Use_Name u of
        Inl e \<Rightarrow> Inl e
      | Inr Name \<Rightarrow>
          (let Filename = Use_Filename u in
           case Use_Func NDEBUG u of
             Inl e \<Rightarrow> Inl e
           | Inr Funct \<Rightarrow>
               (let Line = Use_Line u in
                Inr (JArray [JString Name,
                       JArray [JNull, json_opt_string Funct, json_opt_nat Line]]))))"

text \<open>The serialisation loops of \<^verbatim>\<open>main\<close>: \<open>JUses\<close> for one entry, and the vector \<open>J\<close>
  of the entries \<^verbatim>\<open>{Def, JUses}\<close>.\<close>

fun serializeUses :: "bool \<Rightarrow> Use list \<Rightarrow> error + json list" where
  "serializeUses NDEBUG [] = Inr []"
| "serializeUses NDEBUG (u # us) =
     (case toJSON_Use NDEBUG u of
        Inl e \<Rightarrow> Inl e
      | Inr j \<Rightarrow>
          (case serializeUses NDEBUG us of Inl e \<Rightarrow> Inl e | Inr js \<Rightarrow> Inr (j # js)))"

fun serialize :: "bool \<Rightarrow> Chains \<Rightarrow> error + json list" where
  "serialize NDEBUG [] = Inr []"
| "serialize NDEBUG ((d, Uses) # cs) =
     (case serializeUses NDEBUG Uses of
        Inl e \<Rightarrow> Inl e
      | Inr JUses \<Rightarrow>
          (case toJSON_Def NDEBUG d of
             Inl e \<Rightarrow> Inl e
           | Inr jd \<Rightarrow>
               (case serialize NDEBUG cs of
                  Inl e \<Rightarrow> Inl e
                | Inr J \<Rightarrow> Inr (JArray [jd, JArray JUses] # J))))"

section \<open>The definition collector and the driver\<close>

definition kTaggedMalloc :: string where "kTaggedMalloc = ''__tagged_malloc''"
definition kTaggedCalloc :: string where "kTaggedCalloc = ''__tagged_calloc''"
definition kTaggedRealloc :: string where "kTaggedRealloc = ''__tagged_realloc''"

text \<open>
  A call site of \<^verbatim>\<open>IR->getCallSiteSet()\<close>: the call instruction \<open>CS\<close>, the name of the
  function that \<^verbatim>\<open>SVFUtil::getCallee\<close> resolves (null for a call without a static
  callee), and the node
  \<^verbatim>\<open>VFG->getDefSVFGNode(IR->getGNode(IR->getValueNode(CS)))\<close>. The external API
  classifies functions by name.
\<close>

record CallSite =
  getCallSite :: Value
  getCallee :: "string option"
  getDefSVFGNode :: node

record ExtAPI =
  is_alloc :: "string \<Rightarrow> bool"
  is_realloc :: "string \<Rightarrow> bool"

definition isTaggedName :: "string \<Rightarrow> bool" where
  "isTaggedName F = (F = kTaggedMalloc \<or> F = kTaggedCalloc \<or> F = kTaggedRealloc)"

fun collectDefs ::
  "bool \<Rightarrow> ExtAPI \<Rightarrow> SrcVars \<Rightarrow> VFG \<Rightarrow> CallSite list \<Rightarrow> Def list \<Rightarrow> error + Def list" where
  "collectDefs NDEBUG Externals sv g [] Defs = Inr Defs"
| "collectDefs NDEBUG Externals sv g (c # cs) Defs =
     (case getCallee c of
        None \<Rightarrow> collectDefs NDEBUG Externals sv g cs Defs
      | Some F \<Rightarrow>
          if isTaggedName F then
            if \<not> NDEBUG \<and> \<not> isTaggedAlloc (Some (getCallSite c)) then
              Inl (AssertionFailed ''Tagged alloc must have fuzzalloc metadata'')
            else if \<not> NDEBUG \<and> \<not> (is_alloc Externals F \<or> is_realloc Externals F) then
              Inl (AssertionFailed ''Tagged function must (re)allocate'')
            else
              (let VNode = getDefSVFGNode c in
               collectDefs NDEBUG Externals sv g cs
                 (Defs @ [Def_ctor g VNode (lookup sv (getValue g VNode))]))
          else collectDefs NDEBUG Externals sv g cs Defs)"

text \<open>
  The program after parsing, variable recovery and graph construction. A run of \<^verbatim>\<open>main\<close>
  either leaves through \<^verbatim>\<open>exit\<close> or \<^verbatim>\<open>return\<close>, with a status, the lines written to the
  error stream and the output file if one was written, or it fails.
\<close>

record Program =
  getCallSiteSet :: "CallSite list"
  SVFG :: VFG
  getVariables :: SrcVars

datatype Outcome =
    Exited nat "string list" "(string \<times> json list) option"
  | Failed error

text \<open>
  \<open>Mod\<close> is the result of \<^verbatim>\<open>parseIRFile\<close>, the message of the diagnostic when it is
  null. \<open>opens\<close> says whether the output stream can be opened on a path.
\<close>

definition main ::
  "bool \<Rightarrow> ExtAPI \<Rightarrow> (string \<Rightarrow> bool) \<Rightarrow> string \<Rightarrow> string + Program \<Rightarrow> string \<Rightarrow> Outcome" where
  "main NDEBUG Externals opens BCFilename Mod OutJSON =
     (case Mod of
        Inl msg \<Rightarrow>
          Exited 1 [''[!] Failed to parse `'' @ BCFilename @ ''`: '' @ msg] None
      | Inr p \<Rightarrow>
          (case collectDefs NDEBUG Externals (getVariables p) (SVFG p) (getCallSiteSet p) [] of
             Inl e \<Rightarrow> Failed e
           | Inr Defs \<Rightarrow>
               if Defs = [] then Exited 1 [''[!] Failed to collect any def sites''] None
               else
                 (case collectUses NDEBUG (getVariables p) (SVFG p) Defs ([], 0) of
                    Inl e \<Rightarrow> Failed e
                  | Inr (DefUseChains, NumUses) \<Rightarrow>
                      if OutJSON \<noteq> [] then
                        (case serialize NDEBUG DefUseChains of
                           Inl e \<Rightarrow> Failed e
                         | Inr J \<Rightarrow>
                             if \<not> opens OutJSON then
                               Exited 1 [''[!] Unable to open '' @ OutJSON] None
                             else Exited 0 [] (Some (OutJSON, J)))
                      else Exited 0 [] None)))"

section \<open>Example programs\<close>

text \<open>
  The values of a small program: \<open>p = __tagged_malloc(n)\<close>, the pointer arithmetic
  \<open>q = p + 1\<close>, the instrumented load \<open>*q\<close> and an instrumented store through \<open>p\<close>; then a
  phi and a reallocation that feed each other in a loop, and an instrumented call.
\<close>

definition loc_7 :: DILocation where
  "loc_7 = \<lparr>locFile = ''a.c'', locFunc = ''work'', locLine = 7\<rparr>"

definition var_p :: DIVariable where
  "var_p = \<lparr>varName = ''p'', varFile = ''a.c'', varLine = 3, varLocal = Some ''work''\<rparr>"

definition var_q :: DIVariable where
  "var_q = \<lparr>varName = ''q'', varFile = ''a.c'', varLine = 4, varLocal = Some ''work''\<rparr>"

definition noVars :: SrcVars where
  "noVars = Map.empty"

definition vars_pq :: SrcVars where
  "vars_pq = [1 \<mapsto> var_p, 2 \<mapsto> var_q]"

definition call_p :: Value where
  "call_p = \<lparr>ident = 1,
     asInstruction = Some \<lparr>opcode = CallInst, metadata = [FuzzallocTaggedAllocMD],
       parentName = ''entry'', debugLoc = None\<rparr>,
     printed = ''p = call __tagged_malloc(n)''\<rparr>"

definition call_untagged :: Value where
  "call_untagged = \<lparr>ident = 1,
     asInstruction = Some \<lparr>opcode = CallInst, metadata = [],
       parentName = ''entry'', debugLoc = None\<rparr>,
     printed = ''p = call __tagged_malloc(n)''\<rparr>"

definition gep_q :: Value where
  "gep_q = \<lparr>ident = 2,
     asInstruction = Some \<lparr>opcode = OtherInst, metadata = [],
       parentName = ''entry'', debugLoc = None\<rparr>,
     printed = ''q = getelementptr p, 1''\<rparr>"

definition load_q :: Value where
  "load_q = \<lparr>ident = 3,
     asInstruction = Some \<lparr>opcode = LoadInst 2, metadata = [FuzzallocInstrumentedDerefMD],
       parentName = ''body'', debugLoc = None\<rparr>,
     printed = ''x = load q''\<rparr>"

definition load_q_dbg :: Value where
  "load_q_dbg = \<lparr>ident = 3,
     asInstruction = Some \<lparr>opcode = LoadInst 2, metadata = [FuzzallocInstrumentedDerefMD],
       parentName = ''body'', debugLoc = Some loc_7\<rparr>,
     printed = ''x = load q''\<rparr>"

definition phi_r :: Value where
  "phi_r = \<lparr>ident = 5,
     asInstruction = Some \<lparr>opcode = OtherInst, metadata = [],
       parentName = ''loop'', debugLoc = None\<rparr>,
     printed = ''r = phi p, s''\<rparr>"

definition call_s :: Value where
  "call_s = \<lparr>ident = 6,
     asInstruction = Some \<lparr>opcode = CallInst, metadata = [FuzzallocTaggedAllocMD],
       parentName = ''loop'', debugLoc = None\<rparr>,
     printed = ''s = call __tagged_realloc(r, n)''\<rparr>"

definition call_memcpy :: Value where
  "call_memcpy = \<lparr>ident = 7,
     asInstruction = Some \<lparr>opcode = CallInst, metadata = [FuzzallocInstrumentedDerefMD],
       parentName = ''body'', debugLoc = None\<rparr>,
     printed = ''call memcpy(q, src, n)''\<rparr>"

definition noNode :: VFGNode where
  "noNode = \<lparr>val = None, outEdges = []\<rparr>"

text \<open>\<open>p\<close> flows into \<open>q\<close>, and \<open>q\<close> into the load: \<open>0 \<rightarrow> 1 \<rightarrow> 2\<close>.\<close>

definition g_chain :: VFG where
  "g_chain n =
     (if n = 0 then \<lparr>val = Some call_p, outEdges = [1]\<rparr>
      else if n = 1 then \<lparr>val = Some gep_q, outEdges = [2]\<rparr>
      else if n = 2 then \<lparr>val = Some load_q, outEdges = []\<rparr>
      else noNode)"

text \<open>The reallocation and the phi feed each other: \<open>0 \<rightarrow> 1 \<rightarrow> 0\<close>.\<close>

definition g_cycle :: VFG where
  "g_cycle n =
     (if n = 0 then \<lparr>val = Some call_s, outEdges = [1]\<rparr>
      else if n = 1 then \<lparr>val = Some phi_r, outEdges = [0]\<rparr>
      else noNode)"

text \<open>The reallocation and the phi feed each other, and the phi flows into the
  instrumented load: \<open>0 \<rightarrow> 1 \<rightarrow> 0\<close> and \<open>1 \<rightarrow> 2\<close>.\<close>

definition g_realloc :: VFG where
  "g_realloc n =
     (if n = 0 then \<lparr>val = Some call_s, outEdges = [1]\<rparr>
      else if n = 1 then \<lparr>val = Some phi_r, outEdges = [0, 2]\<rparr>
      else if n = 2 then \<lparr>val = Some load_q, outEdges = []\<rparr>
      else noNode)"

text \<open>The chain \<open>0 \<rightarrow> 1 \<rightarrow> 2\<close> again, with a debug location on the load.\<close>

definition g_dbg :: VFG where
  "g_dbg n =
     (if n = 0 then \<lparr>val = Some call_p, outEdges = [1]\<rparr>
      else if n = 1 then \<lparr>val = Some gep_q, outEdges = [2]\<rparr>
      else if n = 2 then \<lparr>val = Some load_q_dbg, outEdges = []\<rparr>
      else noNode)"

text \<open>\<open>p\<close> flows into a call that carries the annotation of an instrumented
  dereference.\<close>

definition g_memcpy :: VFG where
  "g_memcpy n =
     (if n = 0 then \<lparr>val = Some call_p, outEdges = [1]\<rparr>
      else if n = 1 then \<lparr>val = Some call_memcpy, outEdges = []\<rparr>
      else noNode)"

text \<open>The allocation of \<open>p\<close> without its annotation, and nothing else.\<close>

definition g_untagged :: VFG where
  "g_untagged n = (if n = 0 then \<lparr>val = Some call_untagged, outEdges = []\<rparr> else noNode)"

definition d_untagged :: Def where
  "d_untagged = \<lparr>Def.Node = 0, Def.Val = Some call_untagged, Def.Var = Some var_p\<rparr>"

definition d_p :: Def where
  "d_p = \<lparr>Def.Node = 0, Def.Val = Some call_p, Def.Var = Some var_p\<rparr>"

definition d_p_other :: Def where
  "d_p_other = \<lparr>Def.Node = 0, Def.Val = Some call_p, Def.Var = None\<rparr>"

definition d_s :: Def where
  "d_s = \<lparr>Def.Node = 0, Def.Val = Some call_s, Def.Var = None\<rparr>"

definition u_q :: Use where
  "u_q = \<lparr>Use.Node = 2, Use.Val = Some load_q, Use.Var = Some var_q, Use.Loc = None\<rparr>"

definition u_q_other :: Use where
  "u_q_other = \<lparr>Use.Node = 2, Use.Val = Some load_q, Use.Var = None, Use.Loc = None\<rparr>"

definition u_q_dbg :: Use where
  "u_q_dbg = \<lparr>Use.Node = 2, Use.Val = Some load_q_dbg, Use.Var = Some var_q, Use.Loc = Some loc_7\<rparr>"

definition u_q_novar :: Use where
  "u_q_novar = \<lparr>Use.Node = 2, Use.Val = Some load_q_dbg, Use.Var = None, Use.Loc = Some loc_7\<rparr>"

text \<open>Call sites: the tagged allocation, the reallocation, the allocation without its
  annotation, and an indirect call that carries the annotation.\<close>

definition cs_p :: CallSite where
  "cs_p = \<lparr>getCallSite = call_p, getCallee = Some ''__tagged_malloc'', getDefSVFGNode = 0\<rparr>"

definition cs_s :: CallSite where
  "cs_s = \<lparr>getCallSite = call_s, getCallee = Some ''__tagged_realloc'', getDefSVFGNode = 0\<rparr>"

definition cs_untagged :: CallSite where
  "cs_untagged =
     \<lparr>getCallSite = call_untagged, getCallee = Some ''__tagged_malloc'', getDefSVFGNode = 0\<rparr>"

definition cs_indirect :: CallSite where
  "cs_indirect = \<lparr>getCallSite = call_p, getCallee = None, getDefSVFGNode = 0\<rparr>"

definition ext_std :: ExtAPI where
  "ext_std = \<lparr>is_alloc = (\<lambda>F. F = ''__tagged_malloc'' \<or> F = ''__tagged_calloc''),
               is_realloc = (\<lambda>F. F = ''__tagged_realloc'')\<rparr>"

definition ext_none :: ExtAPI where
  "ext_none = \<lparr>is_alloc = (\<lambda>F. False), is_realloc = (\<lambda>F. False)\<rparr>"

definition prog_indirect :: Program where
  "prog_indirect = \<lparr>getCallSiteSet = [cs_indirect], SVFG = g_chain, getVariables = vars_pq\<rparr>"

definition opens_all :: "string \<Rightarrow> bool" where
  "opens_all path = True"

section \<open>The traversal\<close>

lemma set_push: "set (push wl x) = insert x (set wl)"
  by (auto simp: push_def)

lemma distinct_push: "distinct wl \<Longrightarrow> distinct (push wl x)"
  by (simp add: push_def)

lemma length_push: "length (push wl x) \<le> Suc (length wl)"
  by (simp add: push_def)

lemma visitEdges_vis:
  "visitEdges ss (wl, vis) = (wl', vis') \<Longrightarrow> set vis' = set vis \<union> set ss"
  by (induction ss arbitrary: wl vis) (auto split: if_splits)

lemma visitEdges_wl:
  "visitEdges ss (wl, vis) = (wl', vis') \<Longrightarrow> set wl' = set wl \<union> (set ss - set vis)"
  by (induction ss arbitrary: wl vis) (auto simp: set_push split: if_splits)

lemma visitEdges_distinct_vis:
  "visitEdges ss (wl, vis) = (wl', vis') \<Longrightarrow> distinct vis \<Longrightarrow> distinct vis'"
  by (induction ss arbitrary: wl vis) (auto split: if_splits)

lemma visitEdges_distinct_wl:
  "visitEdges ss (wl, vis) = (wl', vis') \<Longrightarrow> distinct wl \<Longrightarrow> distinct wl'"
  by (induction ss arbitrary: wl vis) (auto simp: distinct_push split: if_splits)

lemma visitEdges_prefix:
  "visitEdges ss (wl, vis) = (wl', vis') \<Longrightarrow> \<exists>new. wl' = wl @ new \<and> set new \<subseteq> set ss - set vis \<and> (distinct wl \<longrightarrow> distinct (wl @ new))"
proof (induction ss arbitrary: wl vis)
  case Nil
  then show ?case by simp
next
  case (Cons s ss)
  show ?case
  proof (cases "s \<in> set vis")
    case True
    with Cons.prems have "visitEdges ss (wl, vis) = (wl', vis')" by simp
    from Cons.IH[OF this] show ?thesis by auto
  next
    case False
    with Cons.prems have "visitEdges ss (push wl s, vis @ [s]) = (wl', vis')" by simp
    from Cons.IH[OF this] obtain new where
      n: "wl' = push wl s @ new" "set new \<subseteq> set ss - set (vis @ [s])"
         "distinct (push wl s) \<longrightarrow> distinct (push wl s @ new)" by blast
    show ?thesis
    proof (cases "s \<in> set wl")
      case True
      with n False show ?thesis by (auto simp: push_def)
    next
      case F2: False
      with n False have "wl' = wl @ (s # new)" by (simp add: push_def)
      moreover have "set (s # new) \<subseteq> set (s # ss) - set vis" using n False by auto
      moreover have "distinct wl \<longrightarrow> distinct (wl @ (s # new))" using n F2 by (auto simp: push_def)
      ultimately show ?thesis by blast
    qed
  qed
qed

lemma visitEdges_measure:
  assumes "finite N" "set ss \<subseteq> N"
  shows "visitEdges ss (wl, vis) = (wl', vis') \<Longrightarrow>
     length wl' + card (N - set vis') \<le> length wl + card (N - set vis)"
  using assms(2)
proof (induction ss arbitrary: wl vis)
  case Nil
  then show ?case by simp
next
  case (Cons s ss)
  show ?case
  proof (cases "s \<in> set vis")
    case True
    with Cons show ?thesis by simp
  next
    case False
    with Cons.prems have v: "visitEdges ss (push wl s, vis @ [s]) = (wl', vis')" by simp
    from Cons.prems have sN: "s \<in> N" "set ss \<subseteq> N" by auto
    from Cons.IH[OF v sN(2)] have
      le: "length wl' + card (N - set vis') \<le> length (push wl s) + card (N - set (vis @ [s]))" .
    have "N - set (vis @ [s]) = (N - set vis) - {s}" by auto
    moreover have "s \<in> N - set vis" using sN False by simp
    moreover have "finite (N - set vis)" using assms(1) by simp
    ultimately have "card (N - set (vis @ [s])) < card (N - set vis)"
      by (metis card_Diff1_less)
    with le length_push[of wl s] show ?thesis by linarith
  qed
qed

lemma traverse_invariant:
  assumes run: "traverse g wl vis lg = Some (vis', lg')"
    and init: "I wl vis lg"
    and step: "\<And>n rest vis lg wl' vis'.
        I (n # rest) vis lg \<Longrightarrow> visitEdges (getOutEdges g n) (rest, vis) = (wl', vis')
        \<Longrightarrow> I wl' vis' (lg @ [n])"
  shows "I [] vis' lg'"
proof -
  have "g0 = g \<longrightarrow> I wl vis lg \<longrightarrow> I [] (fst y) (snd y)"
    if "traverse g0 wl vis lg = Some y" for g0 y
  proof (rule traverse.raw_induct
      [where P = "\<lambda>g0 wl vis lg y. g0 = g \<longrightarrow> I wl vis lg \<longrightarrow> I [] (fst y) (snd y)", OF _ that])
    fix trav g1 wl vis lg y
    assume IH: "\<And>g2 wl vis lg y. trav g2 wl vis lg = Some y
                  \<Longrightarrow> g2 = g \<longrightarrow> I wl vis lg \<longrightarrow> I [] (fst y) (snd y)"
      and eq: "(case wl of [] \<Rightarrow> Some (vis, lg)
               | n # rest \<Rightarrow>
                   (case visitEdges (getOutEdges g1 n) (rest, vis) of
                      (wl', vis') \<Rightarrow> trav g1 wl' vis' (lg @ [n]))) = Some y"
    show "g1 = g \<longrightarrow> I wl vis lg \<longrightarrow> I [] (fst y) (snd y)"
    proof (cases wl)
      case Nil
      with eq show ?thesis by auto
    next
      case (Cons n rest)
      obtain wl' vis' where v: "visitEdges (getOutEdges g1 n) (rest, vis) = (wl', vis')"
        by (cases "visitEdges (getOutEdges g1 n) (rest, vis)")
      with eq Cons have "trav g1 wl' vis' (lg @ [n]) = Some y" by simp
      from IH[OF this] step[of n rest vis lg wl' vis'] v Cons show ?thesis by blast
    qed
  qed
  from this[OF run] init show ?thesis by simp
qed

lemma traverse_terminates:
  assumes fin: "finite N" and closed: "\<forall>n \<in> N. set (getOutEdges g n) \<subseteq> N"
  shows "set wl \<subseteq> N \<Longrightarrow> \<exists>r. traverse g wl vis lg = Some r"
proof (induction "length wl + card (N - set vis)" arbitrary: wl vis lg rule: less_induct)
  case less
  show ?case
  proof (cases wl)
    case Nil
    then show ?thesis by (simp add: traverse.simps)
  next
    case (Cons n rest)
    obtain wl' vis' where v: "visitEdges (getOutEdges g n) (rest, vis) = (wl', vis')"
      by (cases "visitEdges (getOutEdges g n) (rest, vis)")
    from less.prems Cons closed have sub: "set (getOutEdges g n) \<subseteq> N" by auto
    from visitEdges_measure[OF fin sub v] Cons
    have m: "length wl' + card (N - set vis') < length wl + card (N - set vis)" by simp
    from visitEdges_wl[OF v] sub less.prems Cons have "set wl' \<subseteq> N" by auto
    from less.hyps[OF m this] obtain r where "traverse g wl' vis' (lg @ [n]) = Some r" by blast
    with Cons v show ?thesis by (subst traverse.simps) simp
  qed
qed

lemma reach_visited:
  assumes run: "reach g root = Some (vis, lg)"
  shows "set vis = (edges g)\<^sup>+ `` {root}"
proof -
  let ?R = "(edges g)\<^sup>+ `` {root}"
  let ?I = "\<lambda>wl vis (lg :: node list). set wl \<subseteq> insert root (set vis) \<and> set vis \<subseteq> ?R \<and>
              (\<forall>x \<in> insert root (set vis) - set wl. set (getOutEdges g x) \<subseteq> set vis)"
  from run have t: "traverse g [root] [] [] = Some (vis, lg)"
    by (simp add: reach_def push_def)
  have fin: "?I [] vis lg"
  proof (rule traverse_invariant[where I = ?I, OF t])
    show "?I [root] [] []" by simp
  next
    fix n rest vis lg wl' vis'
    assume I: "?I (n # rest) vis lg"
      and v: "visitEdges (getOutEdges g n) (rest, vis) = (wl', vis')"
    note sv = visitEdges_vis[OF v] and sw = visitEdges_wl[OF v]
    from I have nR: "n = root \<or> n \<in> ?R" by auto
    have succ: "set (getOutEdges g n) \<subseteq> ?R"
    proof
      fix s assume "s \<in> set (getOutEdges g n)"
      then have e: "(n, s) \<in> edges g" by (simp add: edges_def)
      from nR show "s \<in> ?R"
      proof
        assume "n = root" with e show ?thesis by auto
      next
        assume "n \<in> ?R"
        then have "(root, n) \<in> (edges g)\<^sup>+" by simp
        with e have "(root, s) \<in> (edges g)\<^sup>+" by (auto intro: trancl_into_trancl)
        then show ?thesis by simp
      qed
    qed
    have a: "set wl' \<subseteq> insert root (set vis')" using I sv sw by auto
    have b: "set vis' \<subseteq> ?R" using I sv succ by auto
    have c: "\<forall>x \<in> insert root (set vis') - set wl'. set (getOutEdges g x) \<subseteq> set vis'"
    proof
      fix x assume x: "x \<in> insert root (set vis') - set wl'"
      show "set (getOutEdges g x) \<subseteq> set vis'"
      proof (cases "x = n")
        case True
        with sv show ?thesis by auto
      next
        case False
        from x sv sw have "x \<in> insert root (set vis)" by auto
        moreover from x sw False have "x \<notin> set (n # rest)" by auto
        ultimately have "set (getOutEdges g x) \<subseteq> set vis" using I by blast
        with sv show ?thesis by auto
      qed
    qed
    from a b c show "?I wl' vis' (lg @ [n])" by blast
  qed
  have "?R \<subseteq> set vis"
  proof
    fix y assume "y \<in> ?R"
    then have "(root, y) \<in> (edges g)\<^sup>+" by simp
    then show "y \<in> set vis"
    proof (induction rule: trancl_induct)
      case (base y)
      then have "y \<in> set (getOutEdges g root)" by (simp add: edges_def)
      with fin show ?case by auto
    next
      case (step y z)
      then have "z \<in> set (getOutEdges g y)" by (simp add: edges_def)
      with fin step.IH show ?case by auto
    qed
  qed
  with fin show ?thesis by blast
qed

lemma reach_popped:
  assumes run: "reach g root = Some (vis, lg)"
  shows "\<exists>rest. lg = root # rest \<and> distinct rest \<and> set rest = set vis \<and> distinct vis"
proof -
  let ?J = "\<lambda>wl vis lg. distinct vis \<and>
      ((lg = [] \<and> wl = [root] \<and> vis = []) \<or>
       (\<exists>rest. lg = root # rest \<and> distinct (rest @ wl) \<and> set (rest @ wl) = set vis))"
  from run have t: "traverse g [root] [] [] = Some (vis, lg)"
    by (simp add: reach_def push_def)
  have "?J [] vis lg"
  proof (rule traverse_invariant[where I = ?J, OF t])
    show "?J [root] [] []" by simp
  next
    fix n rest0 vis lg wl' vis'
    assume J: "?J (n # rest0) vis lg"
      and v: "visitEdges (getOutEdges g n) (rest0, vis) = (wl', vis')"
    note sv = visitEdges_vis[OF v] and sw = visitEdges_wl[OF v]
    from visitEdges_prefix[OF v] obtain new where
      new: "wl' = rest0 @ new" "set new \<subseteq> set (getOutEdges g n) - set vis"
           "distinct rest0 \<longrightarrow> distinct (rest0 @ new)" by blast
    from J visitEdges_distinct_vis[OF v] have dv: "distinct vis'" by blast
    from J have "(lg = [] \<and> n = root \<and> rest0 = [] \<and> vis = []) \<or>
       (\<exists>r. lg = root # r \<and> distinct (r @ n # rest0) \<and> set (r @ n # rest0) = set vis)"
      by auto
    then have "\<exists>rest. lg @ [n] = root # rest \<and> distinct (rest @ wl') \<and> set (rest @ wl') = set vis'"
    proof
      assume i: "lg = [] \<and> n = root \<and> rest0 = [] \<and> vis = []"
      with new sv sw have "distinct ([] @ wl')" "set ([] @ wl') = set vis'" by auto
      with i show ?thesis by auto
    next
      assume "\<exists>r. lg = root # r \<and> distinct (r @ n # rest0) \<and> set (r @ n # rest0) = set vis"
      then obtain r where r: "lg = root # r" "distinct (r @ n # rest0)"
        "set (r @ n # rest0) = set vis" by blast
      have d: "distinct ((r @ [n]) @ wl')" using r new by auto
      have "set (getOutEdges g n) - set vis \<subseteq> set new" using sw new r by auto
      with new r sv have s: "set ((r @ [n]) @ wl') = set vis'" by auto
      from r d s show ?thesis by auto
    qed
    with dv show "?J wl' vis' (lg @ [n])" by blast
  qed
  then show ?thesis by auto
qed

lemma reach_terminates:
  assumes "finite N" "\<forall>n \<in> N. set (getOutEdges g n) \<subseteq> N" "root \<in> N"
  shows "\<exists>r. reach g root = Some r"
  unfolding reach_def using traverse_terminates[OF assms(1,2), of "push [] root"] assms(3)
  by (simp add: push_def)

section \<open>The chain store and the use loop\<close>

lemma nodes_emplace: "Use.Node ` set (emplace us u) = insert (Use.Node u) (Use.Node ` set us)"
  by (auto simp: emplace_def Use_eq_def intro: rev_image_eqI)

lemma chain_find_emplace:
  "Use.Node ` set (chain_find (chain_emplace ch d u) d') =
     (if Def_eq d d' then insert (Use.Node u) (Use.Node ` set (chain_find ch d'))
      else Use.Node ` set (chain_find ch d'))"
proof (induction ch)
  case Nil
  then show ?case by (auto simp: nodes_emplace Def_eq_def emplace_def)
next
  case (Cons a ch)
  obtain k us where a: "a = (k, us)" by (cases a)
  show ?case
  proof (cases "Def_eq k d")
    case True
    then show ?thesis unfolding a by (auto simp: nodes_emplace Def_eq_def)
  next
    case False
    then show ?thesis unfolding a using Cons.IH by (auto simp: Def_eq_def)
  qed
qed

lemma isInstrumentedDeref_Some:
  "isInstrumentedDeref V \<Longrightarrow> \<exists>x I. V = Some x \<and> asInstruction x = Some I"
  by (auto simp: isInstrumentedDeref_def split: option.splits)

lemma Use_ctor_Node: "Use_ctor NDEBUG g n v = Inr u \<Longrightarrow> Use.Node u = n"
  by (auto simp: Use_ctor_def split: option.splits)

lemma useLoop_nodes:
  "useLoop NDEBUG sv g d ns (ch, c) = Inr (ch', c') \<Longrightarrow>
     Use.Node ` set (chain_find ch' d') =
       Use.Node ` set (chain_find ch d') \<union>
       (if Def_eq d d' then {n \<in> set ns. isInstrumentedDeref (getValue g n)} else {})"
proof (induction ns arbitrary: ch c)
  case Nil
  then show ?case by simp
next
  case (Cons n ns)
  show ?case
  proof (cases "isInstrumentedDeref (getValue g n)")
    case False
    with Cons.prems have "useLoop NDEBUG sv g d ns (ch, c) = Inr (ch', c')" by simp
    from Cons.IH[OF this] False show ?thesis by auto
  next
    case True
    with Cons.prems obtain x V u where
      u: "Use_ctor NDEBUG g n (sv V) = Inr u"
      and r: "useLoop NDEBUG sv g d ns (chain_emplace ch d u, c + 1) = Inr (ch', c')"
      by (auto split: option.splits sum.splits)
    from Cons.IH[OF r] Use_ctor_Node[OF u] True show ?thesis
      by (auto simp: chain_find_emplace)
  qed
qed

lemma processDef_nodes:
  assumes "processDef NDEBUG sv g d (ch, c) = Inr (ch', c')"
  shows "Use.Node ` set (chain_find ch' d') =
       Use.Node ` set (chain_find ch d') \<union>
       (if Def_eq d d'
        then {n. (Def.Node d, n) \<in> (edges g)\<^sup>+ \<and> isInstrumentedDeref (getValue g n)} else {})"
proof -
  from assms obtain vis lg where r: "reach g (Def.Node d) = Some (vis, lg)"
    and u: "useLoop NDEBUG sv g d vis (ch, c) = Inr (ch', c')"
    by (auto simp: processDef_def split: option.splits)
  from reach_visited[OF r] have "set vis = (edges g)\<^sup>+ `` {Def.Node d}" .
  then have "{n \<in> set vis. isInstrumentedDeref (getValue g n)} =
     {n. (Def.Node d, n) \<in> (edges g)\<^sup>+ \<and> isInstrumentedDeref (getValue g n)}" by auto
  with useLoop_nodes[OF u, of d'] show ?thesis by simp
qed

lemma collectUses_nodes:
  "collectUses NDEBUG sv g Defs (ch, c) = Inr (ch', c') \<Longrightarrow>
     Use.Node ` set (chain_find ch' d') =
       Use.Node ` set (chain_find ch d') \<union>
       (if \<exists>d \<in> set Defs. Def_eq d d'
        then {n. (Def.Node d', n) \<in> (edges g)\<^sup>+ \<and> isInstrumentedDeref (getValue g n)} else {})"
proof (induction Defs arbitrary: ch c)
  case Nil
  then show ?case by simp
next
  case (Cons d ds)
  from Cons.prems obtain ch1 c1 where
    p: "processDef NDEBUG sv g d (ch, c) = Inr (ch1, c1)"
    and r: "collectUses NDEBUG sv g ds (ch1, c1) = Inr (ch', c')"
    by (auto split: sum.splits)
  from processDef_nodes[OF p, of d'] Cons.IH[OF r] show ?case
    by (auto simp: Def_eq_def)
qed

section \<open>Failures of the use loop\<close>

lemma pointerOperand_fails:
  "asInstruction x = Some I \<Longrightarrow> \<not> isLoadOrStore (opcode I) \<Longrightarrow>
     pointerOperand NDEBUG x = Inl (llvm_unreachable NDEBUG ''use must be a load or store'')"
  by (cases "opcode I") (simp_all add: pointerOperand_def)

lemma pointerOperand_error:
  "pointerOperand NDEBUG x = Inl e \<Longrightarrow> e = llvm_unreachable NDEBUG ''use must be a load or store''"
  by (auto simp: pointerOperand_def split: option.splits Opcode.splits)

lemma useLoop_error:
  "useLoop NDEBUG sv g d ns st = Inl e \<Longrightarrow>
     e = llvm_unreachable NDEBUG ''use must be a load or store''"
proof (induction ns arbitrary: st)
  case Nil
  then show ?case by simp
next
  case (Cons n ns)
  obtain ch c where st: "st = (ch, c)" by (cases st)
  show ?case
  proof (cases "isInstrumentedDeref (getValue g n)")
    case False
    with Cons show ?thesis unfolding st by simp
  next
    case True
    from isInstrumentedDeref_Some[OF True] obtain x I where
      x: "getValue g n = Some x" "asInstruction x = Some I" by blast
    show ?thesis
    proof (cases "pointerOperand NDEBUG x")
      case (Inl e')
      with Cons.prems True x have "e = e'" unfolding st by simp
      with pointerOperand_error[OF Inl] show ?thesis by simp
    next
      case (Inr V)
      from x have "Use_ctor NDEBUG g n (sv V) =
          Inr \<lparr>Use.Node = n, Use.Val = Some x, Use.Var = sv V, Use.Loc = debugLoc I\<rparr>"
        by (simp add: Use_ctor_def)
      with Cons.prems True x Inr obtain st' where "useLoop NDEBUG sv g d ns st' = Inl e"
        unfolding st by auto
      from Cons.IH[OF this] show ?thesis .
    qed
  qed
qed

lemma useLoop_ok_all:
  "useLoop NDEBUG sv g d ns st = Inr st' \<Longrightarrow> n \<in> set ns \<Longrightarrow>
     getValue g n = Some x \<Longrightarrow> asInstruction x = Some I \<Longrightarrow>
     isInstrumentedDeref (getValue g n) \<Longrightarrow> isLoadOrStore (opcode I)"
proof (induction ns arbitrary: st)
  case Nil
  then show ?case by simp
next
  case (Cons m ns)
  obtain ch c where st: "st = (ch, c)" by (cases st)
  show ?case
  proof (cases "m = n")
    case True
    show ?thesis
    proof (rule ccontr)
      assume "\<not> isLoadOrStore (opcode I)"
      from pointerOperand_fails[OF Cons.prems(4) this, of NDEBUG] Cons.prems(1,3,5) True
      show False unfolding st by simp
    qed
  next
    case False
    with Cons.prems(2) have n: "n \<in> set ns" by simp
    from Cons.prems(1) obtain st1 where "useLoop NDEBUG sv g d ns st1 = Inr st'"
      unfolding st by (auto simp: Let_def split: if_splits option.splits sum.splits)
    from Cons.IH[OF this n Cons.prems(3,4,5)] show ?thesis .
  qed
qed

lemma processDef_unreachable:
  assumes r: "reach g (Def.Node d) \<noteq> None"
  shows "processDef NDEBUG sv g d st = Inl e \<Longrightarrow>
     e = llvm_unreachable NDEBUG ''use must be a load or store''"
  using r useLoop_error[of NDEBUG sv g d _ st e]
  by (auto simp: processDef_def split: option.splits)

lemma processDef_ok_all:
  assumes "processDef NDEBUG sv g d st = Inr st'"
    and "(Def.Node d, n) \<in> (edges g)\<^sup>+" and "isInstrumentedDeref (getValue g n)"
    and "getValue g n = Some x" and "asInstruction x = Some I"
  shows "isLoadOrStore (opcode I)"
proof -
  from assms(1) obtain vis lg where r: "reach g (Def.Node d) = Some (vis, lg)"
    and u: "useLoop NDEBUG sv g d vis st = Inr st'"
    by (auto simp: processDef_def split: option.splits)
  from reach_visited[OF r] assms(2) have "n \<in> set vis" by simp
  from useLoop_ok_all[OF u this assms(4,5,3)] show ?thesis .
qed

lemma reachable_in_closed:
  assumes "\<forall>n \<in> N. set (getOutEdges g n) \<subseteq> N" "root \<in> N" "(root, y) \<in> (edges g)\<^sup>+"
  shows "y \<in> N"
  using assms(3,1,2) by (induction rule: trancl_induct) (auto simp: edges_def)

section \<open>Evaluating the examples\<close>

lemmas ex_defs = g_chain_def g_cycle_def g_realloc_def g_dbg_def g_memcpy_def g_untagged_def
  noNode_def
  call_p_def gep_q_def load_q_def phi_r_def call_s_def call_memcpy_def call_untagged_def
  load_q_dbg_def d_p_def d_s_def d_untagged_def u_q_def d_p_other_def
  u_q_other_def u_q_dbg_def u_q_novar_def var_p_def var_q_def loc_7_def noVars_def vars_pq_def

lemmas run_defs = reach_def push_def traverse.simps processDef_def getOutEdges_def getValue_def
  isInstrumentedDeref_def hasMetadata_def getMetadata_def pointerOperand_def Use_ctor_def
  Def_eq_def Use_eq_def emplace_def llvm_unreachable_def failed_assert_def Let_def

section \<open>Runs that return, the collector and repeated insertion\<close>

lemma pointerOperand_ok:
  "asInstruction x = Some I \<Longrightarrow> isLoadOrStore (opcode I) \<Longrightarrow> \<exists>V. pointerOperand NDEBUG x = Inr V"
  by (cases "opcode I") (simp_all add: pointerOperand_def)

lemma useLoop_returns:
  assumes "\<forall>n \<in> set ns. isInstrumentedDeref (getValue g n) \<longrightarrow>
             (\<exists>x I. getValue g n = Some x \<and> asInstruction x = Some I \<and> isLoadOrStore (opcode I))"
  shows "\<exists>st'. useLoop NDEBUG sv g d ns st = Inr st'"
  using assms
proof (induction ns arbitrary: st)
  case Nil
  then show ?case by simp
next
  case (Cons n ns)
  obtain ch c where st: "st = (ch, c)" by (cases st)
  from Cons.prems have rest: "\<forall>n \<in> set ns. isInstrumentedDeref (getValue g n) \<longrightarrow>
      (\<exists>x I. getValue g n = Some x \<and> asInstruction x = Some I \<and> isLoadOrStore (opcode I))"
    by simp
  show ?case
  proof (cases "isInstrumentedDeref (getValue g n)")
    case False
    with Cons.IH[OF rest, of st] show ?thesis unfolding st by simp
  next
    case True
    with Cons.prems obtain x I where
      x: "getValue g n = Some x" "asInstruction x = Some I" "isLoadOrStore (opcode I)" by auto
    from pointerOperand_ok[OF x(2,3)] obtain V where V: "pointerOperand NDEBUG x = Inr V" by blast
    from x have u: "Use_ctor NDEBUG g n (sv V) =
        Inr \<lparr>Use.Node = n, Use.Val = Some x, Use.Var = sv V, Use.Loc = debugLoc I\<rparr>"
      by (simp add: Use_ctor_def)
    from Cons.IH[OF rest] True x V u show ?thesis unfolding st by simp
  qed
qed

lemma processDef_returns:
  assumes "finite N" and "\<forall>n \<in> N. set (getOutEdges g n) \<subseteq> N" and "Def.Node d \<in> N"
    and "\<forall>n \<in> N. isInstrumentedDeref (getValue g n) \<longrightarrow>
           (\<exists>x I. getValue g n = Some x \<and> asInstruction x = Some I \<and> isLoadOrStore (opcode I))"
  shows "\<exists>st'. processDef NDEBUG sv g d st = Inr st'"
proof -
  from reach_terminates[OF assms(1,2,3)] obtain vis lg where
    r: "reach g (Def.Node d) = Some (vis, lg)" by (cases "reach g (Def.Node d)") auto
  from reach_visited[OF r] reachable_in_closed[OF assms(2,3)] have "set vis \<subseteq> N" by auto
  with assms(4) have "\<forall>n \<in> set vis. isInstrumentedDeref (getValue g n) \<longrightarrow>
      (\<exists>x I. getValue g n = Some x \<and> asInstruction x = Some I \<and> isLoadOrStore (opcode I))"
    by blast
  from useLoop_returns[OF this] r show ?thesis by (simp add: processDef_def)
qed

lemma collectUses_returns:
  assumes "finite N" and "\<forall>n \<in> N. set (getOutEdges g n) \<subseteq> N"
    and "\<forall>n \<in> N. isInstrumentedDeref (getValue g n) \<longrightarrow>
           (\<exists>x I. getValue g n = Some x \<and> asInstruction x = Some I \<and> isLoadOrStore (opcode I))"
  shows "\<forall>d \<in> set Defs. Def.Node d \<in> N \<Longrightarrow> \<exists>st'. collectUses NDEBUG sv g Defs st = Inr st'"
proof (induction Defs arbitrary: st)
  case Nil
  then show ?case by simp
next
  case (Cons d ds)
  from Cons.prems have "Def.Node d \<in> N" by simp
  from processDef_returns[OF assms(1,2) this assms(3)] obtain st1 where
    p: "processDef NDEBUG sv g d st = Inr st1" by blast
  from Cons.prems have "\<forall>d \<in> set ds. Def.Node d \<in> N" by simp
  from Cons.IH[OF this, of st1] p show ?case by simp
qed

lemma collectDefs_asserting:
  "(\<exists>Defs. collectDefs False Externals sv g cs Defs0 = Inr Defs) =
     (\<forall>c \<in> set cs. \<forall>F. getCallee c = Some F \<and> isTaggedName F \<longrightarrow>
        isTaggedAlloc (Some (getCallSite c)) \<and> (is_alloc Externals F \<or> is_realloc Externals F))"
  by (induction cs arbitrary: Defs0) (auto simp: Let_def split: option.splits)

lemma collectDefs_error:
  "collectDefs NDEBUG Externals sv g cs Defs0 = Inl e \<Longrightarrow>
     \<not> NDEBUG \<and> (e = AssertionFailed ''Tagged alloc must have fuzzalloc metadata'' \<or>
                 e = AssertionFailed ''Tagged function must (re)allocate'')"
  by (induction cs arbitrary: Defs0) (auto simp: Let_def split: option.splits if_splits)

lemma collectDefs_no_tagged:
  "\<forall>c \<in> set cs. \<forall>F. getCallee c = Some F \<longrightarrow> \<not> isTaggedName F \<Longrightarrow>
     collectDefs NDEBUG Externals sv g cs Defs0 = Inr Defs0"
  by (induction cs arbitrary: Defs0) (auto split: option.splits)

lemma collectDefs_append:
  "collectDefs NDEBUG Externals sv g (cs1 @ cs2) Defs0 =
     (case collectDefs NDEBUG Externals sv g cs1 Defs0 of
        Inl e \<Rightarrow> Inl e
      | Inr Defs1 \<Rightarrow> collectDefs NDEBUG Externals sv g cs2 Defs1)"
  by (induction cs1 arbitrary: Defs0) (auto simp: Let_def split: option.splits)

lemma collectDefs_result:
  "collectDefs NDEBUG Externals sv g cs Defs0 = Inr Defs \<Longrightarrow>
     Defs = Defs0 @
       map (\<lambda>c. Def_ctor g (getDefSVFGNode c) (lookup sv (getValue g (getDefSVFGNode c))))
         (filter (\<lambda>c. \<exists>F. getCallee c = Some F \<and> isTaggedName F) cs)"
proof (induction cs arbitrary: Defs0)
  case Nil
  then show ?case by simp
next
  case (Cons c cs)
  show ?case
  proof (cases "\<exists>F. getCallee c = Some F \<and> isTaggedName F")
    case True
    with Cons.prems have "collectDefs NDEBUG Externals sv g cs
        (Defs0 @ [Def_ctor g (getDefSVFGNode c) (lookup sv (getValue g (getDefSVFGNode c)))]) =
        Inr Defs"
      by (auto simp: Let_def split: if_splits)
    from Cons.IH[OF this] True show ?thesis by simp
  next
    case False
    with Cons.prems have "collectDefs NDEBUG Externals sv g cs Defs0 = Inr Defs"
      by (auto split: option.splits)
    from Cons.IH[OF this] False show ?thesis by simp
  qed
qed

lemma emplace_again:
  "Use.Node u = Use.Node u' \<Longrightarrow> emplace (emplace us u) u' = emplace us u"
  by (auto simp: emplace_def Use_eq_def)

lemma chain_emplace_again:
  "Def.Node d = Def.Node d' \<Longrightarrow> Use.Node u = Use.Node u' \<Longrightarrow>
     chain_emplace (chain_emplace ch d u) d' u' = chain_emplace ch d u"
proof (induction ch)
  case Nil
  then show ?case by (simp add: Def_eq_def emplace_again)
next
  case (Cons a ch)
  obtain k us where a: "a = (k, us)" by (cases a)
  from Cons show ?case unfolding a by (simp add: Def_eq_def emplace_again)
qed

lemmas cd_defs = isTaggedName_def kTaggedMalloc_def kTaggedCalloc_def kTaggedRealloc_def
  isTaggedAlloc_def hasMetadata_def getMetadata_def Def_ctor_def lookup_def getValue_def
  cs_p_def cs_s_def cs_untagged_def cs_indirect_def ext_std_def ext_none_def Let_def

lemmas json_defs = toJSON_Def_def toJSON_Use_def Def_Name_def Def_Filename_def Def_Func_def
  Def_Line_def Use_Name_def Use_Filename_def Use_Func_def Use_Line_def blockName_def
  dyn_cast_or_null_DILocalVariable_def json_opt_string_def json_opt_nat_def failed_assert_def
  Let_def

section \<open>The order of the walk over the visited set\<close>

text \<open>
  The use loop fails exactly when some node of the list is instrumented without being a
  load or a store, always with the same failure, and the nodes it stores depend on the
  set of the list only. So walking the visited set in insertion order stands for every
  order in which the hash set may be walked.
\<close>

lemma useLoop_fails_iff:
  "(\<exists>e. useLoop NDEBUG sv g d ns st = Inl e) =
     (\<exists>n \<in> set ns. isInstrumentedDeref (getValue g n) \<and>
        \<not> (\<exists>x I. getValue g n = Some x \<and> asInstruction x = Some I \<and> isLoadOrStore (opcode I)))"
proof
  assume "\<exists>e. useLoop NDEBUG sv g d ns st = Inl e"
  then obtain e where e: "useLoop NDEBUG sv g d ns st = Inl e" ..
  show "\<exists>n \<in> set ns. isInstrumentedDeref (getValue g n) \<and>
        \<not> (\<exists>x I. getValue g n = Some x \<and> asInstruction x = Some I \<and> isLoadOrStore (opcode I))"
  proof (rule ccontr)
    assume "\<not> ?thesis"
    then have "\<forall>n \<in> set ns. isInstrumentedDeref (getValue g n) \<longrightarrow>
        (\<exists>x I. getValue g n = Some x \<and> asInstruction x = Some I \<and> isLoadOrStore (opcode I))"
      by blast
    from useLoop_returns[OF this, of NDEBUG sv d st] e show False by simp
  qed
next
  assume "\<exists>n \<in> set ns. isInstrumentedDeref (getValue g n) \<and>
        \<not> (\<exists>x I. getValue g n = Some x \<and> asInstruction x = Some I \<and> isLoadOrStore (opcode I))"
  then obtain n where n: "n \<in> set ns" "isInstrumentedDeref (getValue g n)"
    "\<not> (\<exists>x I. getValue g n = Some x \<and> asInstruction x = Some I \<and> isLoadOrStore (opcode I))"
    by blast
  from isInstrumentedDeref_Some[OF n(2)] obtain x I where
    x: "getValue g n = Some x" "asInstruction x = Some I" by blast
  with n(3) have bad: "\<not> isLoadOrStore (opcode I)" by simp
  show "\<exists>e. useLoop NDEBUG sv g d ns st = Inl e"
  proof (cases "useLoop NDEBUG sv g d ns st")
    case (Inl e)
    then show ?thesis by blast
  next
    case (Inr st')
    from useLoop_ok_all[OF Inr n(1) x n(2)] bad show ?thesis by simp
  qed
qed

lemma useLoop_order:
  assumes "set ns = set ns'"
  shows "(useLoop NDEBUG sv g d ns (ch, c) = Inl e) = (useLoop NDEBUG sv g d ns' (ch, c) = Inl e)"
    and "useLoop NDEBUG sv g d ns (ch, c) = Inr (ch1, c1) \<Longrightarrow>
         useLoop NDEBUG sv g d ns' (ch, c) = Inr (ch2, c2) \<Longrightarrow>
         Use.Node ` set (chain_find ch1 d') = Use.Node ` set (chain_find ch2 d')"
proof -
  have "(\<exists>e. useLoop NDEBUG sv g d ns (ch, c) = Inl e) =
        (\<exists>e. useLoop NDEBUG sv g d ns' (ch, c) = Inl e)"
    unfolding useLoop_fails_iff assms ..
  with useLoop_error[of NDEBUG sv g d ns "(ch, c)"] useLoop_error[of NDEBUG sv g d ns' "(ch, c)"]
  show "(useLoop NDEBUG sv g d ns (ch, c) = Inl e) = (useLoop NDEBUG sv g d ns' (ch, c) = Inl e)"
    by metis
next
  assume a: "useLoop NDEBUG sv g d ns (ch, c) = Inr (ch1, c1)"
    and b: "useLoop NDEBUG sv g d ns' (ch, c) = Inr (ch2, c2)"
  from useLoop_nodes[OF a, of d'] useLoop_nodes[OF b, of d'] assms
  show "Use.Node ` set (chain_find ch1 d') = Use.Node ` set (chain_find ch2 d')" by simp
qed

section \<open>The records that a run builds\<close>

text \<open>
  In a run that returns, every instrumented node that a definition reaches is a load or a
  store; every definition comes from a call site, and every stored use from the
  constructor, on an instruction.
\<close>

lemma collectUses_ok_all:
  "collectUses NDEBUG sv g Defs st = Inr st' \<Longrightarrow> d \<in> set Defs \<Longrightarrow>
     (Def.Node d, n) \<in> (edges g)\<^sup>+ \<Longrightarrow> isInstrumentedDeref (getValue g n) \<Longrightarrow>
     getValue g n = Some x \<Longrightarrow> asInstruction x = Some I \<Longrightarrow> isLoadOrStore (opcode I)"
proof (induction Defs arbitrary: st)
  case Nil
  then show ?case by simp
next
  case (Cons a ds)
  from Cons.prems(1) obtain st1 where
    p: "processDef NDEBUG sv g a st = Inr st1"
    and r: "collectUses NDEBUG sv g ds st1 = Inr st'"
    by (auto split: sum.splits)
  show ?case
  proof (cases "a = d")
    case True
    with processDef_ok_all[OF p _ Cons.prems(4,5,6)] Cons.prems(3) show ?thesis by simp
  next
    case False
    with Cons.prems(2) have "d \<in> set ds" by simp
    from Cons.IH[OF r this Cons.prems(3,4,5,6)] show ?thesis .
  qed
qed

lemma collectDefs_member:
  assumes "collectDefs NDEBUG Externals sv g cs [] = Inr Defs" and "d \<in> set Defs"
  shows "\<exists>c \<in> set cs. d = Def_ctor g (getDefSVFGNode c) (lookup sv (getValue g (getDefSVFGNode c)))"
  using collectDefs_result[OF assms(1)] assms(2) by auto







section \<open>The claims\<close>

subsection \<open>C1: the use set of a definition\<close>

text \<open>
  C1. In a run of the use collection that returns, the nodes of the uses stored for a
  definition of \<open>Defs\<close> are exactly the nodes that are reachable from the definition's node
  along one or more dataflow edges and whose value passes \<open>isInstrumentedDeref\<close>: nodes
  that were visited but do not pass the predicate are not in the set, and the nodes behind
  them are. The run returns on every finite graph whose instrumented nodes are loads or
  stores.
\<close>

theorem C1_use_set_is_reachable_derefs:
  "(collectUses NDEBUG sv g Defs ([], 0) = Inr (DefUseChains, NumUses) \<and> d \<in> set Defs \<longrightarrow>
      Use.Node ` set (chain_find DefUseChains d) =
        {n. (Def.Node d, n) \<in> (edges g)\<^sup>+ \<and> isInstrumentedDeref (getValue g n)} \<and>
      (X \<in> set (getOutEdges g (Def.Node d)) \<and> B \<in> set (getOutEdges g X) \<and>
       isInstrumentedDeref (getValue g B) \<longrightarrow>
         B \<in> Use.Node ` set (chain_find DefUseChains d)) \<and>
      (\<not> isInstrumentedDeref (getValue g X) \<longrightarrow>
         X \<notin> Use.Node ` set (chain_find DefUseChains d))) \<and>
   (finite N \<and> (\<forall>n \<in> N. set (getOutEdges g n) \<subseteq> N) \<and> (\<forall>d \<in> set Defs. Def.Node d \<in> N) \<and>
    (\<forall>n \<in> N. isInstrumentedDeref (getValue g n) \<longrightarrow>
       (\<exists>x I. getValue g n = Some x \<and> asInstruction x = Some I \<and> isLoadOrStore (opcode I))) \<longrightarrow>
      (\<exists>chains count. collectUses NDEBUG sv g Defs ([], 0) = Inr (chains, count)))"
proof -
  have a: "Use.Node ` set (chain_find DefUseChains d) =
        {n. (Def.Node d, n) \<in> (edges g)\<^sup>+ \<and> isInstrumentedDeref (getValue g n)}"
    if run: "collectUses NDEBUG sv g Defs ([], 0) = Inr (DefUseChains, NumUses)"
      and d: "d \<in> set Defs"
  proof -
    from d have "\<exists>d' \<in> set Defs. Def_eq d' d" by (auto simp: Def_eq_def)
    with collectUses_nodes[OF run, of d] show ?thesis by simp
  qed
  have through: "(Def.Node d, B) \<in> (edges g)\<^sup>+"
    if "X \<in> set (getOutEdges g (Def.Node d))" "B \<in> set (getOutEdges g X)"
  proof -
    from that have "(Def.Node d, X) \<in> edges g" "(X, B) \<in> edges g" by (simp_all add: edges_def)
    then show ?thesis by (meson r_into_trancl trancl_into_trancl)
  qed
  have b: "\<exists>chains count. collectUses NDEBUG sv g Defs ([], 0) = Inr (chains, count)"
    if "finite N" "\<forall>n \<in> N. set (getOutEdges g n) \<subseteq> N" "\<forall>d \<in> set Defs. Def.Node d \<in> N"
      "\<forall>n \<in> N. isInstrumentedDeref (getValue g n) \<longrightarrow>
         (\<exists>x I. getValue g n = Some x \<and> asInstruction x = Some I \<and> isLoadOrStore (opcode I))"
    using collectUses_returns[OF that(1,2,4,3), of NDEBUG sv "([], 0)"] by auto
  from a through have c: "collectUses NDEBUG sv g Defs ([], 0) = Inr (DefUseChains, NumUses) \<and>
      d \<in> set Defs \<longrightarrow>
      Use.Node ` set (chain_find DefUseChains d) =
        {n. (Def.Node d, n) \<in> (edges g)\<^sup>+ \<and> isInstrumentedDeref (getValue g n)} \<and>
      (X \<in> set (getOutEdges g (Def.Node d)) \<and> B \<in> set (getOutEdges g X) \<and>
       isInstrumentedDeref (getValue g B) \<longrightarrow>
         B \<in> Use.Node ` set (chain_find DefUseChains d)) \<and>
      (\<not> isInstrumentedDeref (getValue g X) \<longrightarrow>
         X \<notin> Use.Node ` set (chain_find DefUseChains d))"
    by simp
  from c b show ?thesis by blast
qed

text \<open>On \<open>0 \<rightarrow> 1 \<rightarrow> 2\<close>, where node 1 is pointer arithmetic and node 2 the
  instrumented load, the use set of the definition at node 0 is \<open>{2}\<close>.\<close>

theorem C1_witness:
  "collectUses False vars_pq g_chain [d_p] ([], 0) = Inr ([(d_p, [u_q])], 1) \<and>
   Use.Node ` set (chain_find [(d_p, [u_q])] d_p) =
     {n. (Def.Node d_p, n) \<in> (edges g_chain)\<^sup>+ \<and> isInstrumentedDeref (getValue g_chain n)} \<and>
   Use.Node ` set (chain_find [(d_p, [u_q])] d_p) = {2} \<and>
   1 \<in> set (getOutEdges g_chain (Def.Node d_p)) \<and> 2 \<in> set (getOutEdges g_chain 1) \<and>
   isInstrumentedDeref (getValue g_chain 2) \<and> \<not> isInstrumentedDeref (getValue g_chain 1) \<and>
   2 \<in> Use.Node ` set (chain_find [(d_p, [u_q])] d_p) \<and>
   1 \<notin> Use.Node ` set (chain_find [(d_p, [u_q])] d_p) \<and>
   finite {0, 1, 2 :: nat} \<and> Def.Node d_p \<in> {0, 1, 2} \<and>
   (\<exists>chains count. collectUses False vars_pq g_chain [d_p] ([], 0) = Inr (chains, count))"
proof -
  have run: "collectUses False vars_pq g_chain [d_p] ([], 0) = Inr ([(d_p, [u_q])], 1)"
    by (simp add: run_defs ex_defs)
  have two: "Use.Node ` set (chain_find [(d_p, [u_q])] d_p) = {2}"
    by (simp add: Def_eq_def u_q_def)
  have path: "1 \<in> set (getOutEdges g_chain (Def.Node d_p))" "2 \<in> set (getOutEdges g_chain 1)"
    "isInstrumentedDeref (getValue g_chain 2)" "\<not> isInstrumentedDeref (getValue g_chain 1)"
    by (simp_all add: run_defs ex_defs)
  have closed: "\<forall>n \<in> {0, 1, 2}. set (getOutEdges g_chain n) \<subseteq> {0, 1, 2}"
    by (simp add: getOutEdges_def g_chain_def)
  have defs: "\<forall>d \<in> set [d_p]. Def.Node d \<in> {0, 1, 2}" by (simp add: d_p_def)
  have ann: "\<forall>n \<in> {0, 1, 2}. isInstrumentedDeref (getValue g_chain n) \<longrightarrow>
       (\<exists>x I. getValue g_chain n = Some x \<and> asInstruction x = Some I \<and> isLoadOrStore (opcode I))"
    by (simp add: run_defs ex_defs)
  from C1_use_set_is_reachable_derefs
    [of False vars_pq g_chain "[d_p]" "[(d_p, [u_q])]" 1 d_p 1 2 "{0, 1, 2}"]
    run two path closed defs ann
  show ?thesis by simp
qed

subsection \<open>C2: the root among its own uses\<close>

text \<open>
  C2. In a run that returns, no use stored for a definition has the definition's own node,
  and every one of them is reachable from that node, also when a cycle leads from the root
  back to itself. The root does enter the visited set on such a cycle (the set is not
  seeded with it), but a use is a load or a store and the root is not: a definition is
  built on the node that the graph gives for a call site, and the value of that node is
  the call. The first part states this for any definition whose node does not carry a
  load or a store, the second for the definitions that the collector builds.
\<close>

theorem C2_root_is_never_its_own_use:
  "(collectUses NDEBUG sv g Defs ([], 0) = Inr (DefUseChains, NumUses) \<and> d \<in> set Defs \<and>
    \<not> (\<exists>x I. getValue g (Def.Node d) = Some x \<and> asInstruction x = Some I \<and>
           isLoadOrStore (opcode I)) \<and>
    u \<in> set (chain_find DefUseChains d) \<longrightarrow>
      Use.Node u \<noteq> Def.Node d \<and> (Def.Node d, Use.Node u) \<in> (edges g)\<^sup>+) \<and>
   (collectDefs NDEBUG Externals sv g cs [] = Inr Defs \<and>
    (\<forall>c \<in> set cs. \<exists>I. getValue g (getDefSVFGNode c) = Some (getCallSite c) \<and>
        asInstruction (getCallSite c) = Some I \<and> opcode I = CallInst) \<and>
    collectUses NDEBUG sv g Defs ([], 0) = Inr (DefUseChains, NumUses) \<and> d \<in> set Defs \<and>
    u \<in> set (chain_find DefUseChains d) \<longrightarrow>
      Use.Node u \<noteq> Def.Node d \<and> (Def.Node d, Use.Node u) \<in> (edges g)\<^sup>+)"
proof -
  have engine: "Use.Node u \<noteq> Def.Node d \<and> (Def.Node d, Use.Node u) \<in> (edges g)\<^sup>+"
    if run: "collectUses NDEBUG sv g Defs ([], 0) = Inr (DefUseChains, NumUses)"
      and d: "d \<in> set Defs"
      and root: "\<not> (\<exists>x I. getValue g (Def.Node d) = Some x \<and> asInstruction x = Some I \<and>
           isLoadOrStore (opcode I))"
      and u: "u \<in> set (chain_find DefUseChains d)"
  proof -
    from d have "\<exists>d' \<in> set Defs. Def_eq d' d" by (auto simp: Def_eq_def)
    with collectUses_nodes[OF run, of d]
    have "Use.Node ` set (chain_find DefUseChains d) =
       {n. (Def.Node d, n) \<in> (edges g)\<^sup>+ \<and> isInstrumentedDeref (getValue g n)}" by simp
    with u have reachable: "(Def.Node d, Use.Node u) \<in> (edges g)\<^sup>+"
      and deref: "isInstrumentedDeref (getValue g (Use.Node u))" by auto
    have "Use.Node u \<noteq> Def.Node d"
    proof
      assume same: "Use.Node u = Def.Node d"
      from isInstrumentedDeref_Some[OF deref] obtain x I where
        x: "getValue g (Use.Node u) = Some x" "asInstruction x = Some I" by blast
      from collectUses_ok_all[OF run d reachable deref x] have "isLoadOrStore (opcode I)" .
      with x same root show False by auto
    qed
    with reachable show ?thesis by simp
  qed
  have built: "\<not> (\<exists>x I. getValue g (Def.Node d) = Some x \<and> asInstruction x = Some I \<and>
           isLoadOrStore (opcode I))"
    if defs: "collectDefs NDEBUG Externals sv g cs [] = Inr Defs"
      and calls: "\<forall>c \<in> set cs. \<exists>I. getValue g (getDefSVFGNode c) = Some (getCallSite c) \<and>
        asInstruction (getCallSite c) = Some I \<and> opcode I = CallInst"
      and d: "d \<in> set Defs"
  proof -
    from collectDefs_member[OF defs d] obtain c where c: "c \<in> set cs"
      "d = Def_ctor g (getDefSVFGNode c) (lookup sv (getValue g (getDefSVFGNode c)))" by blast
    from c(2) have n: "Def.Node d = getDefSVFGNode c" by (simp add: Def_ctor_def)
    from calls c(1) obtain I where "getValue g (getDefSVFGNode c) = Some (getCallSite c)"
      "asInstruction (getCallSite c) = Some I" "opcode I = CallInst" by blast
    with n show ?thesis by auto
  qed
  from engine built show ?thesis by blast
qed

text \<open>The reallocation at node 0 lies on the cycle \<open>0 \<rightarrow> 1 \<rightarrow> 0\<close>, and the load at node
  2 behind the phi is its one use.\<close>

theorem C2_witness:
  "collectDefs False ext_std vars_pq g_realloc [cs_s] [] = Inr [d_s] \<and>
   collectUses False vars_pq g_realloc [d_s] ([], 0) = Inr ([(d_s, [u_q])], 1) \<and>
   (Def.Node d_s, Def.Node d_s) \<in> (edges g_realloc)\<^sup>+ \<and>
   \<not> (\<exists>x I. getValue g_realloc (Def.Node d_s) = Some x \<and> asInstruction x = Some I \<and>
          isLoadOrStore (opcode I)) \<and>
   u_q \<in> set (chain_find [(d_s, [u_q])] d_s) \<and>
   Use.Node u_q \<noteq> Def.Node d_s \<and> (Def.Node d_s, Use.Node u_q) \<in> (edges g_realloc)\<^sup>+"
proof -
  have defs: "collectDefs False ext_std vars_pq g_realloc [cs_s] [] = Inr [d_s]"
    by (simp add: cd_defs ex_defs)
  have calls: "\<forall>c \<in> set [cs_s]. \<exists>I. getValue g_realloc (getDefSVFGNode c) = Some (getCallSite c) \<and>
        asInstruction (getCallSite c) = Some I \<and> opcode I = CallInst"
    by (simp add: getValue_def cs_s_def ex_defs)
  have run: "collectUses False vars_pq g_realloc [d_s] ([], 0) = Inr ([(d_s, [u_q])], 1)"
    by (simp add: run_defs ex_defs)
  have u: "u_q \<in> set (chain_find [(d_s, [u_q])] d_s)" by (simp add: Def_eq_def)
  have root: "\<not> (\<exists>x I. getValue g_realloc (Def.Node d_s) = Some x \<and> asInstruction x = Some I \<and>
          isLoadOrStore (opcode I))"
    by (simp add: getValue_def ex_defs)
  have "(0, 1) \<in> edges g_realloc" "(1, 0) \<in> edges g_realloc"
    by (simp_all add: edges_def getOutEdges_def g_realloc_def)
  then have "(0, 0) \<in> (edges g_realloc)\<^sup>+" by (meson r_into_trancl trancl_into_trancl)
  then have cyc: "(Def.Node d_s, Def.Node d_s) \<in> (edges g_realloc)\<^sup>+" by (simp add: d_s_def)
  from C2_root_is_never_its_own_use
    [of False vars_pq g_realloc "[d_s]" "[(d_s, [u_q])]" 1 d_s u_q ext_std "[cs_s]"]
    defs calls run u cyc root
  show ?thesis by simp
qed

subsection \<open>C3: an instrumented node that is neither load nor store\<close>

text \<open>
  C3 (as amended). Let every traversal return, and let a node that some definition of
  \<open>Defs\<close> reaches pass \<open>isInstrumentedDeref\<close> with a value that is neither a load nor a
  store. Then the use collection stops at \<^verbatim>\<open>llvm_unreachable\<close> and stores no chains: in a
  build with assertions this is the fatal error with its message, in a build with
  \<open>NDEBUG\<close> the behaviour is undefined.
\<close>

theorem C3_unreachable_is_fatal_with_assertions:
  assumes "\<forall>d \<in> set Defs. reach g (Def.Node d) \<noteq> None"
    and "d \<in> set Defs" and "(Def.Node d, n) \<in> (edges g)\<^sup>+"
    and "isInstrumentedDeref (getValue g n)"
    and "getValue g n = Some x" and "asInstruction x = Some I"
    and "\<not> isLoadOrStore (opcode I)"
  shows "collectUses NDEBUG sv g Defs st =
           Inl (if NDEBUG then UndefinedBehaviour
                else UnreachableExecuted ''use must be a load or store'')"
  using assms(1,2)
proof (induction Defs arbitrary: st)
  case Nil
  then show ?case by simp
next
  case (Cons a ds)
  from Cons.prems(1) have ra: "reach g (Def.Node a) \<noteq> None" by simp
  show ?case
  proof (cases "processDef NDEBUG sv g a st")
    case (Inl e)
    from processDef_unreachable[OF ra Inl] Inl show ?thesis
      by (simp add: llvm_unreachable_def)
  next
    case (Inr st')
    have "a \<noteq> d"
    proof
      assume "a = d"
      with processDef_ok_all[OF Inr _ assms(4,5,6)] assms(3,7) show False by simp
    qed
    with Cons.prems have "\<forall>d \<in> set ds. reach g (Def.Node d) \<noteq> None" "d \<in> set ds" by auto
    from Cons.IH[OF this] Inr show ?thesis by simp
  qed
qed

text \<open>With assertions, the instrumented call at node 1 of \<open>0 \<rightarrow> 1\<close> ends the run with
  the message of \<^verbatim>\<open>llvm_unreachable\<close>.\<close>

theorem C3_witness:
  "collectUses False vars_pq g_memcpy [d_p] ([], 0) =
     Inl (UnreachableExecuted ''use must be a load or store'')"
proof -
  have r: "\<forall>d \<in> set [d_p]. reach g_memcpy (Def.Node d) \<noteq> None"
    by (simp add: run_defs ex_defs)
  have m: "d_p \<in> set [d_p]" by simp
  have e: "(Def.Node d_p, 1) \<in> (edges g_memcpy)\<^sup>+"
    by (rule r_into_trancl) (simp add: edges_def getOutEdges_def g_memcpy_def d_p_def)
  have v: "getValue g_memcpy 1 = Some call_memcpy" by (simp add: getValue_def g_memcpy_def)
  have i: "asInstruction call_memcpy =
      Some \<lparr>opcode = CallInst, metadata = [FuzzallocInstrumentedDerefMD],
        parentName = ''body'', debugLoc = None\<rparr>"
    by (simp add: call_memcpy_def)
  have p: "isInstrumentedDeref (getValue g_memcpy 1)"
    by (simp add: getValue_def g_memcpy_def call_memcpy_def isInstrumentedDeref_def
        hasMetadata_def getMetadata_def)
  have n: "\<not> isLoadOrStore (opcode \<lparr>opcode = CallInst, metadata = [FuzzallocInstrumentedDerefMD],
        parentName = ''body'', debugLoc = None\<rparr>)"
    by simp
  from C3_unreachable_is_fatal_with_assertions[OF r m e p v i n, of False vars_pq "([], 0)"]
  show ?thesis by simp
qed

text \<open>The same run in a build with \<open>NDEBUG\<close> does not end in the fatal error.\<close>

theorem C3_counterexample:
  "collectUses True vars_pq g_memcpy [d_p] ([], 0) = Inl UndefinedBehaviour"
  by (simp add: run_defs ex_defs)

subsection \<open>C4: the checks on an accepted call site\<close>

text \<open>
  C4 (as amended). Both checks are \<^verbatim>\<open>assert\<close>s. In a build with assertions the collector
  returns its definitions exactly when every call site whose resolved callee has one of the
  three names carries the annotation of a tagged allocation and has a callee that the
  external API classifies as allocating or reallocating; otherwise the run ends in one of
  the two assertion failures. (With \<open>NDEBUG\<close> neither check is made.)
\<close>

theorem C4_accepted_call_sites_are_checked_with_assertions:
  assumes "\<not> NDEBUG"
  shows "((\<exists>Defs. collectDefs NDEBUG Externals sv g cs [] = Inr Defs) =
          (\<forall>c \<in> set cs. \<forall>F. getCallee c = Some F \<and> isTaggedName F \<longrightarrow>
             isTaggedAlloc (Some (getCallSite c)) \<and>
             (is_alloc Externals F \<or> is_realloc Externals F))) \<and>
         (\<forall>e. collectDefs NDEBUG Externals sv g cs [] = Inl e \<longrightarrow>
             e = AssertionFailed ''Tagged alloc must have fuzzalloc metadata'' \<or>
             e = AssertionFailed ''Tagged function must (re)allocate'')"
  using assms collectDefs_asserting[of Externals sv g cs "[]"]
    collectDefs_error[of NDEBUG Externals sv g cs "[]"]
  by auto

text \<open>The annotated call to \<open>__tagged_malloc\<close> is accepted; the same call
  without the annotation fails the first assertion.\<close>

theorem C4_witness:
  "collectDefs False ext_std vars_pq g_chain [cs_p] [] = Inr [d_p] \<and>
   isTaggedAlloc (Some (getCallSite cs_p)) \<and> is_alloc ext_std ''__tagged_malloc'' \<and>
   collectDefs False ext_std vars_pq g_untagged [cs_untagged] [] =
     Inl (AssertionFailed ''Tagged alloc must have fuzzalloc metadata'') \<and>
   \<not> isTaggedAlloc (Some (getCallSite cs_untagged))"
proof -
  have a: "collectDefs False ext_std vars_pq g_chain [cs_p] [] = Inr [d_p]"
    by (simp add: cd_defs ex_defs)
  have b: "\<not> isTaggedAlloc (Some (getCallSite cs_untagged))"
    by (simp add: cd_defs ex_defs)
  have c: "getCallee cs_untagged = Some ''__tagged_malloc'' \<and> isTaggedName ''__tagged_malloc''"
    by (simp add: cd_defs)
  from C4_accepted_call_sites_are_checked_with_assertions
    [of False ext_std vars_pq g_untagged "[cs_untagged]"] b c
  have "collectDefs False ext_std vars_pq g_untagged [cs_untagged] [] =
     Inl (AssertionFailed ''Tagged alloc must have fuzzalloc metadata'')"
    by (cases "collectDefs False ext_std vars_pq g_untagged [cs_untagged] []")
       (auto simp: cd_defs ex_defs)
  with a b show ?thesis by (simp add: cd_defs ex_defs)
qed

text \<open>With \<open>NDEBUG\<close>, a call to \<open>__tagged_malloc\<close> without the annotation, whose
  callee the external API does not classify, becomes a definition.\<close>

theorem C4_counterexample:
  "collectDefs True ext_none vars_pq g_untagged [cs_untagged] [] = Inr [d_untagged] \<and>
   getCallee cs_untagged = Some ''__tagged_malloc'' \<and>
   \<not> isTaggedAlloc (Some (getCallSite cs_untagged)) \<and>
   \<not> is_alloc ext_none ''__tagged_malloc'' \<and> \<not> is_realloc ext_none ''__tagged_malloc''"
  by (simp add: cd_defs ex_defs)

subsection \<open>C5: no definitions\<close>

text \<open>
  C5. When the collector returns no definition, and so when no call site has a resolved
  callee with one of the three names, \<open>main\<close> writes the line
  \<open>Failed to collect any def sites\<close> to the error stream and exits with status 1; no
  output file is written, whatever the output path.
\<close>

theorem C5_no_definitions_exits_with_failure:
  "(collectDefs NDEBUG Externals (getVariables p) (SVFG p) (getCallSiteSet p) [] = Inr [] \<longrightarrow>
      main NDEBUG Externals opens BCFilename (Inr p) OutJSON =
        Exited 1 [''[!] Failed to collect any def sites''] None) \<and>
   ((\<forall>c \<in> set (getCallSiteSet p). \<forall>F. getCallee c = Some F \<longrightarrow> \<not> isTaggedName F) \<longrightarrow>
      main NDEBUG Externals opens BCFilename (Inr p) OutJSON =
        Exited 1 [''[!] Failed to collect any def sites''] None)"
proof -
  have a: "main NDEBUG Externals opens BCFilename (Inr p) OutJSON =
        Exited 1 [''[!] Failed to collect any def sites''] None"
    if "collectDefs NDEBUG Externals (getVariables p) (SVFG p) (getCallSiteSet p) [] = Inr []"
    using that by (simp add: main_def)
  from a collectDefs_no_tagged[of "getCallSiteSet p" NDEBUG Externals "getVariables p" "SVFG p" "[]"]
  show ?thesis by blast
qed

text \<open>A program whose only call site is an indirect call, run with an output
  path that can be opened.\<close>

theorem C5_witness:
  "collectDefs False ext_std (getVariables prog_indirect) (SVFG prog_indirect)
     (getCallSiteSet prog_indirect) [] = Inr [] \<and>
   \<not> (\<exists>c \<in> set (getCallSiteSet prog_indirect). \<exists>F. getCallee c = Some F \<and> isTaggedName F) \<and>
   main False ext_std opens_all ''a.bc'' (Inr prog_indirect) ''out.json'' =
     Exited 1 [''[!] Failed to collect any def sites''] None"
proof -
  have a: "collectDefs False ext_std (getVariables prog_indirect) (SVFG prog_indirect)
     (getCallSiteSet prog_indirect) [] = Inr []"
    by (simp add: prog_indirect_def cs_indirect_def)
  have b: "\<not> (\<exists>c \<in> set (getCallSiteSet prog_indirect). \<exists>F. getCallee c = Some F \<and> isTaggedName F)"
    by (simp add: prog_indirect_def cs_indirect_def)
  from a b C5_no_definitions_exits_with_failure
    [of False ext_std prog_indirect opens_all "''a.bc''" "''out.json''"]
  show ?thesis by simp
qed

subsection \<open>C6: termination and the nodes processed\<close>

text \<open>
  C6 (as amended). On a finite graph (a finite node set \<open>N\<close> that holds the root and is
  closed under the edges) the traversal returns. The first node popped is the root; after
  it, every visited node is popped exactly once and no other node is. So no node but the
  root is processed twice, and the root is processed a second time exactly when it is
  visited, that is when it lies on a cycle. The visited set has no more elements than the
  graph has nodes.
\<close>

theorem C6_traversal_terminates:
  assumes "finite N" and "\<forall>n \<in> N. set (getOutEdges g n) \<subseteq> N" and "root \<in> N"
  shows "\<exists>Visited rest. reach g root = Some (Visited, root # rest) \<and> distinct rest \<and>
           set rest = set Visited \<and> distinct Visited \<and> set Visited \<subseteq> N \<and>
           length Visited \<le> card N"
proof -
  from reach_terminates[OF assms] obtain vis lg where r: "reach g root = Some (vis, lg)"
    by (cases "reach g root") auto
  from reach_popped[OF r] obtain rest where
    p: "lg = root # rest" "distinct rest" "set rest = set vis" "distinct vis" by blast
  from reach_visited[OF r] reachable_in_closed[OF assms(2,3)] have sub: "set vis \<subseteq> N" by auto
  from p(4) have "length vis = card (set vis)" by (simp add: distinct_card)
  with card_mono[OF assms(1) sub] have "length vis \<le> card N" by simp
  with r p sub show ?thesis by blast
qed

text \<open>The graph \<open>0 \<rightarrow> 1 \<rightarrow> 0\<close> with its two nodes.\<close>

theorem C6_witness:
  "\<exists>Visited rest. reach g_cycle 0 = Some (Visited, 0 # rest) \<and> distinct rest \<and>
     set rest = set Visited \<and> distinct Visited \<and> set Visited \<subseteq> {0, 1} \<and>
     length Visited \<le> card {0, 1 :: nat}"
  using C6_traversal_terminates[of "{0, 1}" g_cycle 0]
  by (simp add: g_cycle_def getOutEdges_def noNode_def)

text \<open>On that graph the root, node 0, is popped twice.\<close>

theorem C6_counterexample:
  "reach g_cycle 0 = Some ([1, 0], [0, 1, 0]) \<and> \<not> distinct [0 :: nat, 1, 0]"
  by (simp add: run_defs ex_defs)

subsection \<open>C7: identity by node, and inserting twice\<close>

text \<open>
  C7. Two definitions with the same node are equal and have the same hash, and so have two
  uses, whatever their other fields. Emplacing a pair into the chain store after an equal
  pair leaves the store as it is; the use set of the definition keeps its size.
\<close>

theorem C7_identity_by_node_and_idempotent_insertion:
  assumes "Def.Node d = Def.Node d'" and "Use.Node u = Use.Node u'"
  shows "Def_eq d d' \<and> hash_Def h d = hash_Def h d' \<and>
         Use_eq u u' \<and> hash_Use h u = hash_Use h u' \<and>
         chain_emplace (chain_emplace ch d u) d' u' = chain_emplace ch d u \<and>
         length (chain_find (chain_emplace (chain_emplace ch d u) d' u') d) =
           length (chain_find (chain_emplace ch d u) d)"
  using assms chain_emplace_again[OF assms, of ch]
  by (simp add: Def_eq_def Use_eq_def hash_Def_def hash_Use_def)

text \<open>The definition at node 0 with and without its variable, and the use at
  node 2 with and without its variable.\<close>

theorem C7_witness:
  "Def.Node d_p = Def.Node d_p_other \<and> Def.Var d_p \<noteq> Def.Var d_p_other \<and>
   Use.Node u_q = Use.Node u_q_other \<and> Use.Var u_q \<noteq> Use.Var u_q_other \<and>
   Def_eq d_p d_p_other \<and> Use_eq u_q u_q_other \<and>
   chain_emplace (chain_emplace [] d_p u_q) d_p_other u_q_other = [(d_p, [u_q])] \<and>
   length (chain_find (chain_emplace (chain_emplace [] d_p u_q) d_p_other u_q_other) d_p) = 1"
proof -
  have n: "Def.Node d_p = Def.Node d_p_other" "Use.Node u_q = Use.Node u_q_other"
    by (simp_all add: d_p_def d_p_other_def u_q_def u_q_other_def)
  have v: "Def.Var d_p \<noteq> Def.Var d_p_other" "Use.Var u_q \<noteq> Use.Var u_q_other"
    by (simp_all add: d_p_def d_p_other_def u_q_def u_q_other_def)
  have e: "chain_emplace [] d_p u_q = [(d_p, [u_q])]" by (simp add: emplace_def)
  from C7_identity_by_node_and_idempotent_insertion[OF n, of h "[]" for h] n v e
  show ?thesis by (simp add: Def_eq_def)
qed

subsection \<open>C8: the shape of the rendering\<close>

text \<open>
  C8 (as amended). A definition renders as the pair of its name and the three fields file,
  function, line. A use renders as the pair of its name and three fields as well: the
  first is always null, also when the location of the use has a file, the second is the
  function and the third the line.
\<close>

theorem C8_rendering_of_definitions_and_uses:
  "(toJSON_Def NDEBUG d = Inr jd \<longrightarrow>
      (\<exists>name func.
         jd = JArray [JString name,
                JArray [json_opt_string (Def_Filename d), json_opt_string func,
                        json_opt_nat (Def_Line d)]])) \<and>
   (toJSON_Use NDEBUG u = Inr ju \<longrightarrow>
      (\<exists>name func.
         ju = JArray [JString name,
                JArray [JNull, json_opt_string func, json_opt_nat (Use_Line u)]]))"
  by (auto simp: toJSON_Def_def toJSON_Use_def Let_def split: sum.splits)

text \<open>The definition of \<open>p\<close> and the use of \<open>q\<close> without a debug location.\<close>

theorem C8_witness:
  "toJSON_Def False d_p = Inr (JArray [JString ''p'',
      JArray [JString ''a.c'', JString ''work'', JNumber 3]]) \<and>
   toJSON_Use False u_q = Inr (JArray [JString ''q'',
      JArray [JNull, JString ''body'', JNull]]) \<and>
   (\<exists>name func. JArray [JString ''p'', JArray [JString ''a.c'', JString ''work'', JNumber 3]] =
      JArray [JString name, JArray [json_opt_string (Def_Filename d_p), json_opt_string func,
        json_opt_nat (Def_Line d_p)]]) \<and>
   (\<exists>name func. JArray [JString ''q'', JArray [JNull, JString ''body'', JNull]] =
      JArray [JString name, JArray [JNull, json_opt_string func, json_opt_nat (Use_Line u_q)]])"
proof -
  have a: "toJSON_Def False d_p = Inr (JArray [JString ''p'',
      JArray [JString ''a.c'', JString ''work'', JNumber 3]])"
    by (simp add: json_defs ex_defs)
  have b: "toJSON_Use False u_q = Inr (JArray [JString ''q'',
      JArray [JNull, JString ''body'', JNull]])"
    by (simp add: json_defs ex_defs)
  from C8_rendering_of_definitions_and_uses[of False d_p
      "JArray [JString ''p'', JArray [JString ''a.c'', JString ''work'', JNumber 3]]" u_q
      "JArray [JString ''q'', JArray [JNull, JString ''body'', JNull]]"] a b
  show ?thesis by simp
qed

text \<open>The inner array of a use has three places, the first of them null, although
  \<open>Filename\<close> was computed as \<open>a.c\<close>.\<close>

theorem C8_counterexample:
  "toJSON_Use False u_q_dbg =
     Inr (JArray [JString ''q'', JArray [JNull, JString ''work'', JNumber 7]]) \<and>
   Use_Filename u_q_dbg = Some ''a.c'' \<and>
   length [JNull, JString ''work'', JNumber 7] = 3"
  by (simp add: json_defs ex_defs)

subsection \<open>C9: rendering without a variable\<close>




subsection \<open>C10: call sites without a static callee\<close>

text \<open>
  C10. A call site whose callee is null does not change the run of the collector: with or
  without it the outcome is the same, be it the definitions or a failure. The definitions
  that the collector returns are those of the call sites with a resolved callee named
  \<open>__tagged_malloc\<close>, \<open>__tagged_calloc\<close> or \<open>__tagged_realloc\<close>, in the order of the call
  sites.
\<close>

theorem C10_unresolved_callees_are_skipped:
  "(getCallee c = None \<longrightarrow>
      collectDefs NDEBUG Externals sv g (cs1 @ c # cs2) Defs0 =
      collectDefs NDEBUG Externals sv g (cs1 @ cs2) Defs0) \<and>
   (collectDefs NDEBUG Externals sv g cs [] = Inr Defs \<longrightarrow>
      Defs = map (\<lambda>c. Def_ctor g (getDefSVFGNode c) (lookup sv (getValue g (getDefSVFGNode c))))
               (filter (\<lambda>c. \<exists>F. getCallee c = Some F \<and> isTaggedName F) cs))"
proof -
  have "collectDefs NDEBUG Externals sv g (cs1 @ c # cs2) Defs0 =
        collectDefs NDEBUG Externals sv g (cs1 @ cs2) Defs0" if "getCallee c = None"
    using that by (simp add: collectDefs_append split: sum.splits)
  with collectDefs_result[of NDEBUG Externals sv g cs "[]" Defs] show ?thesis by simp
qed

text \<open>An indirect call that carries the annotation of a tagged allocation,
  followed by the direct call to \<open>__tagged_malloc\<close>.\<close>

theorem C10_witness:
  "getCallee cs_indirect = None \<and> isTaggedAlloc (Some (getCallSite cs_indirect)) \<and>
   collectDefs False ext_std vars_pq g_chain ([] @ cs_indirect # [cs_p]) [] = Inr [d_p] \<and>
   collectDefs False ext_std vars_pq g_chain ([] @ [cs_p]) [] = Inr [d_p] \<and>
   [d_p] = map (\<lambda>c. Def_ctor g_chain (getDefSVFGNode c)
                  (lookup vars_pq (getValue g_chain (getDefSVFGNode c))))
             (filter (\<lambda>c. \<exists>F. getCallee c = Some F \<and> isTaggedName F) [cs_indirect, cs_p])"
proof -
  have n: "getCallee cs_indirect = None" by (simp add: cs_indirect_def)
  have t: "isTaggedAlloc (Some (getCallSite cs_indirect))" by (simp add: cd_defs ex_defs)
  have r: "collectDefs False ext_std vars_pq g_chain [cs_indirect, cs_p] [] = Inr [d_p]"
    by (simp add: cd_defs ex_defs)
  from C10_unresolved_callees_are_skipped
    [of cs_indirect False ext_std vars_pq g_chain "[]" "[cs_p]" "[]" "[cs_indirect, cs_p]" "[d_p]"]
    n t r
  show ?thesis by simp
qed

end
